theory Spec2Isabelle
  imports Complex_Main
begin

section \<open>Clue calculation (clues.js)\<close>

text \<open>
  Cells are JavaScript numbers: \<open>1\<close> is a filled cell, \<open>0\<close> an empty one and \<open>-1\<close> a cell the
  solver has not assigned yet. A line is an array of cells, a clue an array of run lengths.
\<close>

type_synonym line = "int list"
type_synonym clue = "int list"
type_synonym grid = "int list list"

text \<open>
  The scanning loop of \<open>Clues.calculateLine\<close>: \<open>clues\<close> and \<open>count\<close> are the two local
  variables, the list argument is the part of the line still to be read.
\<close>

fun calculateLine_loop :: "line \<Rightarrow> clue \<Rightarrow> int \<Rightarrow> clue \<times> int" where
  "calculateLine_loop [] clues count = (clues, count)"
| "calculateLine_loop (x # xs) clues count =
     (if x = 1 then calculateLine_loop xs clues (count + 1)
      else if count > 0 then calculateLine_loop xs (clues @ [count]) 0
      else calculateLine_loop xs clues count)"

definition calculateLine :: "line \<Rightarrow> clue" where
  "calculateLine line =
     (case calculateLine_loop line [] 0 of
        (clues, count) \<Rightarrow>
          let clues' = (if count > 0 then clues @ [count] else clues)
          in if length clues' > 0 then clues' else [0])"

section \<open>Solver (the backtracking search)\<close>

text \<open>
  Reading an array past its end gives \<open>undefined\<close> in JavaScript, and reading \<open>.length\<close> of
  \<open>undefined\<close> throws a \<open>TypeError\<close>. The clue arrays are inputs of the solver, so a lookup in
  them is an option and the functions that read the length of a looked-up clue return an error
  or a value.
\<close>

datatype error = TypeError

definition clue_at :: "clue list \<Rightarrow> nat \<Rightarrow> clue option" where
  "clue_at cs i = (if i < length cs then Some (cs ! i) else None)"

text \<open>
  \<open>Solver.cluesMatch\<close>. The loop compares index by index; past the end of \<open>clues2\<close> a number is
  compared with \<open>undefined\<close>, which differs from it.
\<close>

fun cluesMatch_loop :: "clue \<Rightarrow> clue \<Rightarrow> bool" where
  "cluesMatch_loop [] clues2 = True"
| "cluesMatch_loop (a # as) [] = False"
| "cluesMatch_loop (a # as) (b # bs) = (if a \<noteq> b then False else cluesMatch_loop as bs)"

fun cluesMatch :: "clue \<Rightarrow> clue option \<Rightarrow> error + bool" where
  "cluesMatch clues1 None = Inl TypeError"
| "cluesMatch clues1 (Some clues2) =
     Inr (if length clues1 \<noteq> length clues2 then False else cluesMatch_loop clues1 clues2)"

text \<open>
  \<open>Solver.canMatchClues\<close>, first loop: the runs of cells known to be filled. An unknown cell
  changes neither \<open>segments\<close> nor \<open>inSegment\<close>. (When \<open>segments\<close> is empty the update below
  changes nothing, whatever the value read; the loop never gets there, since \<open>inSegment\<close> is set
  only after a push.)
\<close>

fun segments_loop :: "line \<Rightarrow> int list \<Rightarrow> bool \<Rightarrow> int list" where
  "segments_loop [] segments inSegment = segments"
| "segments_loop (x # xs) segments inSegment =
     (if x = 1 then
        (let segments1 = (if \<not> inSegment then segments @ [0] else segments);
             k = length segments1 - 1
         in segments_loop xs (segments1[k := segments1 ! k + 1]) True)
      else if x = 0 then segments_loop xs segments False
      else segments_loop xs segments inSegment)"

text \<open>
  Second loop: no confirmed segment exceeds the clue at the same index (\<open>s > undefined\<close> is
  false in JavaScript).
\<close>

fun segments_within :: "int list \<Rightarrow> clue \<Rightarrow> bool" where
  "segments_within [] clues = True"
| "segments_within (s # ss) [] = segments_within ss []"
| "segments_within (s # ss) (c # cs) = (if s > c then False else segments_within ss cs)"

fun canMatchClues :: "line \<Rightarrow> clue option \<Rightarrow> error + bool" where
  "canMatchClues line None = Inl TypeError"
| "canMatchClues line (Some clues) =
     (let segments = segments_loop line [] False
      in if length segments > length clues then Inr False
         else Inr (segments_within segments clues))"

text \<open>
  The column loop \<open>for (r = 0; r < size; r++) column.push(grid[r][col])\<close>, written three times
  in the source (\<open>isValidPartial\<close>, \<open>isValidSolution\<close>, \<open>Clues.calculateColumns\<close>). The grids of
  the solver are square (built by \<open>create2DArray size size\<close>), so every read is in range.
\<close>

definition column_of :: "grid \<Rightarrow> nat \<Rightarrow> line" where
  "column_of grid col = map (\<lambda>r. grid ! r ! col) [0..<length grid]"

definition isValidPartial :: "grid \<Rightarrow> clue list \<Rightarrow> clue list \<Rightarrow> nat \<Rightarrow> nat \<Rightarrow> error + bool" where
  "isValidPartial grid rowClues colClues row col =
     (let rowComplete = list_all (\<lambda>cell. cell \<noteq> - 1) (grid ! row)
      in case (if rowComplete then cluesMatch (calculateLine (grid ! row)) (clue_at rowClues row)
               else canMatchClues (grid ! row) (clue_at rowClues row)) of
           Inl e \<Rightarrow> Inl e
         | Inr rowOk \<Rightarrow>
             if \<not> rowOk then Inr False
             else
               (let column = column_of grid col;
                    colComplete = list_all (\<lambda>cell. cell \<noteq> - 1) column
                in if colComplete then cluesMatch (calculateLine column) (clue_at colClues col)
                   else canMatchClues column (clue_at colClues col)))"

text \<open>\<open>Solver.isValidSolution\<close>: the two loops run over the indices \<open>0 ..< size\<close>.\<close>

fun isValidSolution_rows :: "grid \<Rightarrow> clue list \<Rightarrow> nat list \<Rightarrow> error + bool" where
  "isValidSolution_rows grid rowClues [] = Inr True"
| "isValidSolution_rows grid rowClues (row # rest) =
     (case cluesMatch (calculateLine (grid ! row)) (clue_at rowClues row) of
        Inl e \<Rightarrow> Inl e
      | Inr ok \<Rightarrow> if \<not> ok then Inr False else isValidSolution_rows grid rowClues rest)"

fun isValidSolution_cols :: "grid \<Rightarrow> clue list \<Rightarrow> nat list \<Rightarrow> error + bool" where
  "isValidSolution_cols grid colClues [] = Inr True"
| "isValidSolution_cols grid colClues (col # rest) =
     (case cluesMatch (calculateLine (column_of grid col)) (clue_at colClues col) of
        Inl e \<Rightarrow> Inl e
      | Inr ok \<Rightarrow> if \<not> ok then Inr False else isValidSolution_cols grid colClues rest)"

definition isValidSolution :: "grid \<Rightarrow> clue list \<Rightarrow> clue list \<Rightarrow> error + bool" where
  "isValidSolution grid rowClues colClues =
     (let size = length grid
      in case isValidSolution_rows grid rowClues [0..<size] of
           Inl e \<Rightarrow> Inl e
         | Inr ok \<Rightarrow>
             if \<not> ok then Inr False else isValidSolution_cols grid colClues [0..<size])"

text \<open>\<open>Utils.create2DArray\<close>, \<open>Utils.copy2DArray\<close> and the assignment \<open>grid[row][col] = value\<close>.\<close>

definition create2DArray :: "nat \<Rightarrow> nat \<Rightarrow> int \<Rightarrow> grid" where
  "create2DArray rows cols defaultValue = map (\<lambda>_. replicate cols defaultValue) (replicate rows ())"

definition copy2DArray :: "grid \<Rightarrow> grid" where
  "copy2DArray array = map (\<lambda>row. row) array"

definition set_cell :: "grid \<Rightarrow> nat \<Rightarrow> nat \<Rightarrow> int \<Rightarrow> grid" where
  "set_cell grid row col v = grid[row := (grid ! row)[col := v]]"

text \<open>
  \<open>Solver.backtrack\<close>. The source mutates \<open>grid\<close> and \<open>solutions\<close> in place and returns a
  boolean; the model returns the boolean together with the grid and the solutions as they are
  when the call returns. The loop \<open>for (const value of [1, 0])\<close> is unrolled: a value that fails
  \<open>isValidPartial\<close> goes on to the next one, as a recursive call that returns \<open>true\<close> does.
  \<open>maxSolutions\<close> is a natural number. For \<open>pos < size * size\<close> the row index is in range, and
  on a square grid so is the column index; on a ragged grid JavaScript would lengthen the row on
  assignment, which \<open>set_cell\<close> does not do, so statements about \<open>backtrack\<close> on a grid other
  than the one \<open>solve\<close> builds are made for square grids.
\<close>

function backtrack ::
  "grid \<Rightarrow> clue list \<Rightarrow> clue list \<Rightarrow> nat \<Rightarrow> grid list \<Rightarrow> nat \<Rightarrow> error + (bool \<times> grid \<times> grid list)"
where
  "backtrack grid rowClues colClues pos solutions maxSolutions =
     (let size = length grid
      in if length solutions \<ge> maxSolutions then Inr (False, grid, solutions)
         else if pos \<ge> size * size then
           (case isValidSolution grid rowClues colClues of
              Inl e \<Rightarrow> Inl e
            | Inr ok \<Rightarrow>
                let solutions' = (if ok then solutions @ [copy2DArray grid] else solutions)
                in Inr (length solutions' < maxSolutions, grid, solutions'))
         else
           (let row = pos div size; col = pos mod size;
                grid1 = set_cell grid row col 1
            in case isValidPartial grid1 rowClues colClues row col of
                 Inl e \<Rightarrow> Inl e
               | Inr ok1 \<Rightarrow>
                  (case (if ok1 then backtrack grid1 rowClues colClues (pos + 1) solutions maxSolutions
                         else Inr (True, grid1, solutions)) of
                     Inl e \<Rightarrow> Inl e
                   | Inr (cont1, grid1', solutions1) \<Rightarrow>
                       if \<not> cont1 then Inr (False, set_cell grid1' row col (- 1), solutions1)
                       else
                         (let grid0 = set_cell grid1' row col 0
                          in case isValidPartial grid0 rowClues colClues row col of
                               Inl e \<Rightarrow> Inl e
                             | Inr ok0 \<Rightarrow>
                                (case (if ok0 then backtrack grid0 rowClues colClues (pos + 1) solutions1 maxSolutions
                                       else Inr (True, grid0, solutions1)) of
                                   Inl e \<Rightarrow> Inl e
                                 | Inr (cont0, grid0', solutions0) \<Rightarrow>
                                     if \<not> cont0 then Inr (False, set_cell grid0' row col (- 1), solutions0)
                                     else Inr (True, set_cell grid0' row col (- 1), solutions0))))))"
  by pat_completeness auto


termination backtrack
proof -
  have len: "length g' = length g"
    if "backtrack_dom (g, rc, cc, p, s, m)" and "backtrack g rc cc p s m = Inr (c, g', s')"
    for g rc cc p s m c g' s'
    using that 
  proof (induct g rc cc p s m arbitrary: c g' s' rule: backtrack.pinduct)
    case (1 grid rowClues colClues pos solutions maxSolutions)
    note dom = "1.hyps"(1)
    note IH1 = "1.hyps"(2)[OF refl _ _ refl refl refl]
    note IH0 = "1.hyps"(3)[OF refl _ _ refl refl refl]
    note eq = "1.prems"[unfolded backtrack.psimps[OF dom] Let_def]
    show ?case
    proof (cases "maxSolutions \<le> length solutions")
      case True
      with eq show ?thesis by simp
    next
      case nfull: False
      show ?thesis
      proof (cases "length grid * length grid \<le> pos")
        case True
        with eq nfull show ?thesis by (simp split: sum.splits)
      next
        case inside: False
        define row where "row = pos div length grid"
        define col where "col = pos mod length grid"
        define grid1 where "grid1 = set_cell grid row col 1"
        define r1 where "r1 = (\<lambda>ok1. if ok1 then backtrack grid1 rowClues colClues (pos + 1) solutions maxSolutions
                               else Inr (True, grid1, solutions))"
        define r0 where "r0 = (\<lambda>g s ok0. if ok0 then backtrack g rowClues colClues (pos + 1) s maxSolutions
                                 else Inr (True, g, s))"
        have eqA: "(case isValidPartial grid1 rowClues colClues row col of
                 Inl e \<Rightarrow> Inl e
               | Inr ok1 \<Rightarrow>
                  (case r1 ok1 of
                     Inl e \<Rightarrow> Inl e
                   | Inr (cont1, grid1', solutions1) \<Rightarrow>
                       if \<not> cont1 then Inr (False, set_cell grid1' row col (- 1), solutions1)
                       else
                         (case isValidPartial (set_cell grid1' row col 0) rowClues colClues row col of
                               Inl e \<Rightarrow> Inl e
                             | Inr ok0 \<Rightarrow>
                                (case r0 (set_cell grid1' row col 0) solutions1 ok0 of
                                   Inl e \<Rightarrow> Inl e
                                 | Inr (cont0, grid0', solutions0) \<Rightarrow>
                                     if \<not> cont0 then Inr (False, set_cell grid0' row col (- 1), solutions0)
                                     else Inr (True, set_cell grid0' row col (- 1), solutions0))))) = Inr (c, g', s')"
          using eq nfull inside unfolding r1_def r0_def grid1_def row_def col_def
          by (simp only: if_False)
        obtain ok1 where
          ok1: "isValidPartial grid1 rowClues colClues row col = Inr ok1"
          using eqA by (cases "isValidPartial grid1 rowClues colClues row col") simp_all
        have eqB: "(case r1 ok1 of
                     Inl e \<Rightarrow> Inl e
                   | Inr (cont1, grid1', solutions1) \<Rightarrow>
                       if \<not> cont1 then Inr (False, set_cell grid1' row col (- 1), solutions1)
                       else
                         (case isValidPartial (set_cell grid1' row col 0) rowClues colClues row col of
                               Inl e \<Rightarrow> Inl e
                             | Inr ok0 \<Rightarrow>
                                (case r0 (set_cell grid1' row col 0) solutions1 ok0 of
                                   Inl e \<Rightarrow> Inl e
                                 | Inr (cont0, grid0', solutions0) \<Rightarrow>
                                     if \<not> cont0 then Inr (False, set_cell grid0' row col (- 1), solutions0)
                                     else Inr (True, set_cell grid0' row col (- 1), solutions0)))) = Inr (c, g', s')"
          using eqA by (simp only: ok1 sum.case)
        obtain cont1 grid1' solutions1 where
          r1: "r1 ok1 = Inr (cont1, grid1', solutions1)"
          using eqB by (cases "r1 ok1") auto
        have l1: "length grid1' = length grid"
        proof (cases ok1)
          case True
          with r1 have "backtrack grid1 rowClues colClues (pos + 1) solutions maxSolutions
                        = Inr (cont1, grid1', solutions1)"
            by (simp add: r1_def)
          from IH1[OF nfull inside ok1[unfolded grid1_def row_def col_def] True
                this[unfolded grid1_def row_def col_def]]
          show ?thesis by (simp add: set_cell_def)
        next
          case False
          with r1 show ?thesis by (auto simp: r1_def grid1_def set_cell_def)
        qed
        have eqC: "(if \<not> cont1 then Inr (False, set_cell grid1' row col (- 1), solutions1)
                       else
                         (case isValidPartial (set_cell grid1' row col 0) rowClues colClues row col of
                               Inl e \<Rightarrow> Inl e
                             | Inr ok0 \<Rightarrow>
                                (case r0 (set_cell grid1' row col 0) solutions1 ok0 of
                                   Inl e \<Rightarrow> Inl e
                                 | Inr (cont0, grid0', solutions0) \<Rightarrow>
                                     if \<not> cont0 then Inr (False, set_cell grid0' row col (- 1), solutions0)
                                     else Inr (True, set_cell grid0' row col (- 1), solutions0)))) = Inr (c, g', s')"
          using eqB by (simp only: r1 sum.case prod.case)
        show ?thesis
        proof (cases cont1)
          case False
          with eqC l1 show ?thesis by (auto simp: set_cell_def)
        next
          case cont1: True
          define grid0 where "grid0 = set_cell grid1' row col 0"
          have eqD: "(case isValidPartial grid0 rowClues colClues row col of
                               Inl e \<Rightarrow> Inl e
                             | Inr ok0 \<Rightarrow>
                                (case r0 grid0 solutions1 ok0 of
                                   Inl e \<Rightarrow> Inl e
                                 | Inr (cont0, grid0', solutions0) \<Rightarrow>
                                     if \<not> cont0 then Inr (False, set_cell grid0' row col (- 1), solutions0)
                                     else Inr (True, set_cell grid0' row col (- 1), solutions0))) = Inr (c, g', s')"
            using eqC cont1 unfolding grid0_def by (simp only: not_True_eq_False if_False)
          obtain ok0 where
            ok0: "isValidPartial grid0 rowClues colClues row col = Inr ok0"
            using eqD by (cases "isValidPartial grid0 rowClues colClues row col") simp_all
          have eqE: "(case r0 grid0 solutions1 ok0 of
                                   Inl e \<Rightarrow> Inl e
                                 | Inr (cont0, grid0', solutions0) \<Rightarrow>
                                     if \<not> cont0 then Inr (False, set_cell grid0' row col (- 1), solutions0)
                                     else Inr (True, set_cell grid0' row col (- 1), solutions0)) = Inr (c, g', s')"
            using eqD by (simp only: ok0 sum.case)
          obtain cont0 grid0' solutions0 where
            r0: "r0 grid0 solutions1 ok0 = Inr (cont0, grid0', solutions0)"
            using eqE by (cases "r0 grid0 solutions1 ok0") auto
          have l0: "length grid0' = length grid"
          proof (cases ok0)
            case True
            with r0 have "backtrack grid0 rowClues colClues (pos + 1) solutions1 maxSolutions
                          = Inr (cont0, grid0', solutions0)"
              by (simp add: r0_def)
            moreover from cont1 have "\<not> \<not> cont1" by simp
            ultimately have "length grid0' = length grid0"
              using IH0[OF nfull inside ok1[unfolded grid1_def row_def col_def]
                  r1[unfolded r1_def grid1_def row_def col_def] refl refl _ refl
                  ok0[unfolded grid0_def row_def col_def] True]
              unfolding grid0_def row_def col_def by blast
            with l1 show ?thesis by (simp add: set_cell_def grid0_def)
          next
            case False
            with r0 l1 show ?thesis by (auto simp: r0_def grid0_def set_cell_def)
          qed
          have "g' = set_cell grid0' row col (- 1)"
            using eqE unfolding r0 by (cases cont0) simp_all
          with l0 show ?thesis by (simp add: set_cell_def)
        qed
      qed
    qed
  qed
  show ?thesis
  proof (relation "measure (\<lambda>(g, rc, cc, p, s, m). length g * length g - p)")
    show "wf (measure (\<lambda>(g, rc, cc, p, s, m). length g * length g - p))" by simp
  next
    fix grid :: grid and rowClues colClues :: "clue list" and pos :: nat and solutions :: "grid list"
      and maxSolutions x xa xb :: nat and xc :: grid and b :: bool
    assume "x = length grid" "\<not> x * x \<le> pos" "xc = set_cell grid xa xb 1"
    then show "((xc, rowClues, colClues, pos + 1, solutions, maxSolutions),
                grid, rowClues, colClues, pos, solutions, maxSolutions)
          \<in> measure (\<lambda>(g, rc, cc, p, s, m). length g * length g - p)"
      by (auto simp: set_cell_def)
  next
    fix grid :: grid and rowClues colClues :: "clue list" and pos :: nat and solutions :: "grid list"
      and maxSolutions x xa xb :: nat and xc xe xf :: grid and b :: bool and ba y xd ya
    assume "x = length grid" "\<not> x * x \<le> pos" "xc = set_cell grid xa xb 1"
      and "(if b then backtrack xc rowClues colClues (pos + 1) solutions maxSolutions
            else Inr (True, xc, solutions)) = Inr ba"
      and "(xd, y) = ba" "(xe, ya) = y" "xf = set_cell xe xa xb 0"
      and "b \<Longrightarrow> backtrack_dom (xc, rowClues, colClues, pos + 1, solutions, maxSolutions)"
    then have "length xe = length grid"
      by (cases b) (auto dest: len simp: set_cell_def)
    with \<open>\<not> x * x \<le> pos\<close> \<open>x = length grid\<close> \<open>xf = set_cell xe xa xb 0\<close>
    show "((xf, rowClues, colClues, pos + 1, ya, maxSolutions),
                grid, rowClues, colClues, pos, solutions, maxSolutions)
          \<in> measure (\<lambda>(g, rc, cc, p, s, m). length g * length g - p)"
      by (auto simp: set_cell_def)
  qed
qed

declare backtrack.simps [simp del]

text \<open>
  \<open>Solver.solve\<close>: \<open>size\<close> is the number of row clues; the working grid and the solutions
  array are local to the call.
\<close>

record solve_result =
  solutions :: "grid list"
  unique :: bool
  solvable :: bool

definition solve :: "clue list \<Rightarrow> clue list \<Rightarrow> nat \<Rightarrow> error + solve_result" where
  "solve rowClues colClues maxSolutions =
     (let size = length rowClues;
          grid = create2DArray size size (- 1)
      in case backtrack grid rowClues colClues 0 [] maxSolutions of
           Inl e \<Rightarrow> Inl e
         | Inr (_, _, sols) \<Rightarrow>
             Inr \<lparr>solutions = sols, unique = (length sols = 1), solvable = (length sols > 0)\<rparr>)"

section \<open>Clues of a whole grid (clues.js)\<close>

definition calculateRows :: "grid \<Rightarrow> clue list" where
  "calculateRows grid = map (\<lambda>row. calculateLine row) grid"

definition calculateColumns :: "grid \<Rightarrow> clue list" where
  "calculateColumns grid = map (\<lambda>col. calculateLine (column_of grid col)) [0..<length grid]"

text \<open>\<open>Clues.calculateAll\<close> returns the object \<open>{rowClues, colClues}\<close>, here a pair.\<close>

definition calculateAll :: "grid \<Rightarrow> clue list \<times> clue list" where
  "calculateAll grid = (calculateRows grid, calculateColumns grid)"

section \<open>Generator\<close>

text \<open>
  \<open>Math.random\<close> is an input of the model: \<open>rnd k\<close> is the value of the \<open>k\<close>-th call, and the
  functions thread the number of calls made so far. The values are real numbers; the rounding of
  doubles is not modelled. \<open>Utils.getDateString()\<close> reads the clock and is the parameter
  \<open>today\<close>. \<open>generateRandomGrid\<close> overwrites every cell of \<open>create2DArray size size 0\<close> in
  row-major order, one random number per cell, so the cell at \<open>(row, col)\<close> is decided by the
  number drawn \<open>row * size + col\<close> calls after the start.
\<close>

definition generateRandomGrid :: "nat \<Rightarrow> real \<Rightarrow> (nat \<Rightarrow> real) \<Rightarrow> nat \<Rightarrow> grid \<times> nat" where
  "generateRandomGrid n fillPercentage rnd k =
     (map (\<lambda>row. map (\<lambda>col. if rnd (k + row * n + col) < fillPercentage then 1 else 0) [0..<n]) [0..<n],
      k + n * n)"

record puzzle =
  puzzle_size :: nat
  puzzle_solution :: grid
  puzzle_name :: string
  puzzle_created :: string

fun show_nat :: "nat \<Rightarrow> string" where
  "show_nat n = (if n < 10 then [char_of (48 + n)] else show_nat (n div 10) @ [char_of (48 + n mod 10)])"

text \<open>
  \<open>Generator.generate\<close>: the first argument of the loop is the number of attempts left
  (\<open>maxAttempts - attempt\<close>). The character between the two sizes of the name is the
  multiplication sign, code 215.
\<close>

fun generate_loop :: "nat \<Rightarrow> nat \<Rightarrow> (nat \<Rightarrow> real) \<Rightarrow> nat \<Rightarrow> string \<Rightarrow> error + puzzle option" where
  "generate_loop 0 n rnd k today = Inr None"
| "generate_loop (Suc attempts) n rnd k today =
     (let fillPercentage = 4 / 10 + rnd k * (3 / 10)
      in case generateRandomGrid n fillPercentage rnd (k + 1) of
           (grid, k') \<Rightarrow>
             (case calculateAll grid of
                (rowClues, colClues) \<Rightarrow>
                  (case solve rowClues colClues 2 of
                     Inl e \<Rightarrow> Inl e
                   | Inr result \<Rightarrow>
                       if unique result then
                         Inr (Some \<lparr>puzzle_size = n, puzzle_solution = grid,
                                    puzzle_name = ''Random '' @ show_nat n @ [char_of (215 :: nat)] @ show_nat n,
                                    puzzle_created = today\<rparr>)
                       else generate_loop attempts n rnd k' today)))"

definition generate :: "nat \<Rightarrow> nat \<Rightarrow> (nat \<Rightarrow> real) \<Rightarrow> string \<Rightarrow> error + puzzle option" where
  "generate n maxAttempts rnd today = generate_loop maxAttempts n rnd 0 today"

section \<open>Loading a puzzle record (player.js)\<close>

text \<open>
  The record comes from \<open>JSON.parse\<close>, so a field can be absent (\<open>None\<close>). \<open>loadPuzzle\<close> throws
  an \<open>Error\<close> with a message or stores the record in \<open>currentPuzzle\<close>; the model returns the
  message or the stored record. (What follows in the source builds the grid on the page.)
\<close>

record puzzle_json =
  json_size :: "int option"
  json_solution :: "grid option"

definition loadPuzzle :: "puzzle_json \<Rightarrow> string + puzzle_json" where
  "loadPuzzle p =
     (case json_size p of
        None \<Rightarrow> Inl ''Invalid puzzle format''
      | Some sz \<Rightarrow>
         (case json_solution p of
            None \<Rightarrow> Inl ''Invalid puzzle format''
          | Some sol \<Rightarrow>
              if sz = 0 then Inl ''Invalid puzzle format''
              else if sz \<noteq> 10 \<and> sz \<noteq> 15 then Inl ''Puzzle size must be 10 or 15''
              else if int (length sol) \<noteq> sz \<or> int (length (sol ! 0)) \<noteq> sz
                then Inl ''Puzzle dimensions do not match specified size''
              else Inr p))"

section \<open>Notions used in the statements and proofs\<close>

text \<open>
  A grid is square when each row is as long as the grid; \<open>cell_at g p\<close> is the cell at the
  row-major position \<open>p\<close>; \<open>unknown_from g pos\<close> says that every cell at a position from
  \<open>pos\<close> on is unknown. \<open>branch\<close> is one iteration of the loop of \<open>backtrack\<close> before its
  result is inspected.
\<close>

definition square :: "grid \<Rightarrow> bool" where
  "square g \<longleftrightarrow> list_all (\<lambda>row. length row = length g) g"

definition cell_at :: "grid \<Rightarrow> nat \<Rightarrow> int" where
  "cell_at g p = g ! (p div length g) ! (p mod length g)"

definition unknown_from :: "grid \<Rightarrow> nat \<Rightarrow> bool" where
  "unknown_from g pos \<longleftrightarrow> list_all (\<lambda>p. cell_at g p = - 1) [pos..<length g * length g]"

definition branch ::
  "grid \<Rightarrow> clue list \<Rightarrow> clue list \<Rightarrow> nat \<Rightarrow> nat \<Rightarrow> nat \<Rightarrow> grid list \<Rightarrow> nat \<Rightarrow> int
    \<Rightarrow> error + (bool \<times> grid \<times> grid list)" where
  "branch g rc cc row col pos sols m v =
     (case isValidPartial (set_cell g row col v) rc cc row col of
        Inl e \<Rightarrow> Inl e
      | Inr ok \<Rightarrow>
          if ok then backtrack (set_cell g row col v) rc cc (pos + 1) sols m
          else Inr (True, set_cell g row col v, sols))"

text \<open>
  \<open>is_grid n g\<close>: \<open>g\<close> is an \<open>n\<close>-by-\<open>n\<close> grid of cells \<open>0\<close> and \<open>1\<close>. \<open>satisfies g rc cc\<close>:
  the clues computed from \<open>g\<close> are the row clues \<open>rc\<close> and the column clues \<open>cc\<close>.
\<close>

definition is_grid :: "nat \<Rightarrow> grid \<Rightarrow> bool" where
  "is_grid n g \<longleftrightarrow>
     length g = n \<and> list_all (\<lambda>row. length row = n \<and> list_all (\<lambda>cell. cell = 0 \<or> cell = 1) row) g"

definition satisfies :: "grid \<Rightarrow> clue list \<Rightarrow> clue list \<Rightarrow> bool" where
  "satisfies g rc cc \<longleftrightarrow> calculateAll g = (rc, cc)"

text \<open>
  \<open>check_line\<close> is the test that \<open>isValidPartial\<close> applies to the row and to the column:
  exact match for a complete line, \<open>canMatchClues\<close> otherwise. \<open>fits\<close> is what the two checks
  of \<open>canMatchClues\<close> decide together.
\<close>

definition check_line :: "line \<Rightarrow> clue option \<Rightarrow> error + bool" where
  "check_line line clues =
     (if list_all (\<lambda>cell. cell \<noteq> - 1) line then cluesMatch (calculateLine line) clues
      else canMatchClues line clues)"

definition fits :: "int list \<Rightarrow> clue \<Rightarrow> bool" where
  "fits segs clues \<longleftrightarrow> length segs \<le> length clues \<and> segments_within segs clues"

definition open_run :: "clue \<Rightarrow> int \<Rightarrow> clue" where
  "open_run cl c = cl @ (if 0 < c then [c] else [])"

text \<open>
  \<open>assigned_upto g pos\<close>: the cells before position \<open>pos\<close> hold \<open>0\<close> or \<open>1\<close> and the others are
  unknown, which is the state of the working grid when \<open>backtrack\<close> is entered at \<open>pos\<close>.
  \<open>extensions k g pos\<close> lists the grids obtained by assigning the \<open>k\<close> cells from \<open>pos\<close> on, in
  the order of the search (filled before empty). \<open>accepts\<close> is the final check, and
  \<open>all_solutions\<close> the accepted grids in search order.
\<close>

definition assigned_upto :: "grid \<Rightarrow> nat \<Rightarrow> bool" where
  "assigned_upto g pos \<longleftrightarrow>
     list_all (\<lambda>p. if p < pos then cell_at g p = 0 \<or> cell_at g p = 1 else cell_at g p = - 1)
       [0..<length g * length g]"

primrec extensions :: "nat \<Rightarrow> grid \<Rightarrow> nat \<Rightarrow> grid list" where
  "extensions 0 g pos = [g]"
| "extensions (Suc k) g pos =
     extensions k (set_cell g (pos div length g) (pos mod length g) 1) (pos + 1) @
     extensions k (set_cell g (pos div length g) (pos mod length g) 0) (pos + 1)"

definition accepts :: "clue list \<Rightarrow> clue list \<Rightarrow> grid \<Rightarrow> bool" where
  "accepts rc cc g \<longleftrightarrow> isValidSolution g rc cc = Inr True"

definition all_solutions :: "clue list \<Rightarrow> clue list \<Rightarrow> grid list" where
  "all_solutions rc cc =
     filter (accepts rc cc)
       (extensions (length rc * length rc) (create2DArray (length rc) (length rc) (- 1)) 0)"

text \<open>
  \<open>attempt_grid n rnd k\<close> is the candidate grid of an attempt of \<open>generate\<close> that starts when
  \<open>k\<close> random numbers have been drawn; an attempt draws \<open>n * n + 1\<close> numbers.
  \<open>yields_unique g\<close>: \<open>solve\<close> with bound 2 on the clues of \<open>g\<close> reports \<open>unique\<close>.
\<close>

definition attempt_grid :: "nat \<Rightarrow> (nat \<Rightarrow> real) \<Rightarrow> nat \<Rightarrow> grid" where
  "attempt_grid n rnd k = fst (generateRandomGrid n (4 / 10 + rnd k * (3 / 10)) rnd (k + 1))"

definition yields_unique :: "grid \<Rightarrow> bool" where
  "yields_unique g \<longleftrightarrow>
     (case solve (fst (calculateAll g)) (snd (calculateAll g)) 2 of
        Inl e \<Rightarrow> False
      | Inr r \<Rightarrow> unique r)"

section \<open>Properties\<close>

lemma calculateLine_loop_append:
  "calculateLine_loop (xs @ ys) cl c =
     (case calculateLine_loop xs cl c of (cl', c') \<Rightarrow> calculateLine_loop ys cl' c')"
  by (induction xs arbitrary: cl c) auto

lemma calculateLine_loop_inv:
  assumes "0 \<le> c" and "\<forall>x\<in>set cl. 0 < x" and "calculateLine_loop xs cl c = (cl', c')"
  shows "0 \<le> c' \<and> (\<forall>x\<in>set cl'. 0 < x) \<and>
         sum_list cl' + int (length cl') + c' \<le> sum_list cl + int (length cl) + c + int (length xs)"
  using assms
proof (induction xs arbitrary: cl c)
  case Nil
  then show ?case by simp
next
  case (Cons x xs)
  show ?case
  proof (cases "x = 1")
    case True
    with Cons.prems have "calculateLine_loop xs cl (c + 1) = (cl', c')" by simp
    from Cons.IH[OF _ Cons.prems(2) this] Cons.prems(1) show ?thesis by simp
  next
    case nf: False
    show ?thesis
    proof (cases "c > 0")
      case True
      with nf Cons.prems have "calculateLine_loop xs (cl @ [c]) 0 = (cl', c')" by simp
      from Cons.IH[OF _ _ this] Cons.prems(2) True show ?thesis by simp
    next
      case False
      with nf Cons.prems have "calculateLine_loop xs cl c = (cl', c')" by simp
      from Cons.IH[OF Cons.prems(1,2) this] show ?thesis by simp
    qed
  qed
qed

lemma calculateLine_loop_no_filled:
  "1 \<notin> set xs \<Longrightarrow> calculateLine_loop xs [] 0 = ([], 0)"
  by (induction xs) auto

lemma calculateLine_loop_keeps:
  assumes "0 \<le> c" and "cl \<noteq> [] \<or> 0 < c" and "calculateLine_loop xs cl c = (cl', c')"
  shows "cl' \<noteq> [] \<or> 0 < c'"
  using assms
proof (induction xs arbitrary: cl c)
  case Nil
  then show ?case by simp
next
  case (Cons x xs)
  show ?case
  proof (cases "x = 1")
    case True
    with Cons.prems have "calculateLine_loop xs cl (c + 1) = (cl', c')" by simp
    from Cons.IH[OF _ _ this] Cons.prems(1) show ?thesis by simp
  next
    case nf: False
    show ?thesis
    proof (cases "c > 0")
      case True
      with nf Cons.prems have "calculateLine_loop xs (cl @ [c]) 0 = (cl', c')" by simp
      from Cons.IH[OF _ _ this] show ?thesis by simp
    next
      case False
      with nf Cons.prems have "calculateLine_loop xs cl c = (cl', c')" by simp
      from Cons.IH[OF Cons.prems(1,2) this] show ?thesis by simp
    qed
  qed
qed

lemma calculateLine_loop_filled:
  assumes "1 \<in> set xs" and "0 \<le> c" and "calculateLine_loop xs cl c = (cl', c')"
  shows "cl' \<noteq> [] \<or> 0 < c'"
  using assms
proof (induction xs arbitrary: cl c)
  case Nil
  then show ?case by simp
next
  case (Cons x xs)
  show ?case
  proof (cases "x = 1")
    case True
    with Cons.prems have "calculateLine_loop xs cl (c + 1) = (cl', c')" by simp
    from calculateLine_loop_keeps[OF _ _ this] Cons.prems(2) show ?thesis by simp
  next
    case False
    with Cons.prems have "1 \<in> set xs" by simp
    from False Cons.prems Cons.IH[OF this] show ?thesis
      by (auto split: if_splits)
  qed
qed

lemma cluesMatch_loop_eq: "length c1 = length c2 \<Longrightarrow> cluesMatch_loop c1 c2 = (c1 = c2)"
  by (induction c1 c2 rule: cluesMatch_loop.induct) auto

lemma cluesMatch_Some: "cluesMatch c1 (Some c2) = Inr (c1 = c2)"
  using cluesMatch_loop_eq[of c1 c2] by auto

lemma backtrack_step:
  assumes "\<not> m \<le> length sols" and "\<not> length g * length g \<le> pos"
  shows "backtrack g rc cc pos sols m =
     (case branch g rc cc (pos div length g) (pos mod length g) pos sols m 1 of
        Inl e \<Rightarrow> Inl e
      | Inr (c1, g1, s1) \<Rightarrow>
          if \<not> c1 then Inr (False, set_cell g1 (pos div length g) (pos mod length g) (- 1), s1)
          else (case branch g1 rc cc (pos div length g) (pos mod length g) pos s1 m 0 of
                  Inl e \<Rightarrow> Inl e
                | Inr (c0, g0, s0) \<Rightarrow>
                    Inr (c0, set_cell g0 (pos div length g) (pos mod length g) (- 1), s0)))"
  using assms
  apply (subst backtrack.simps)
  apply (simp add: branch_def Let_def split: sum.splits)
  done

lemma backtrack_full:
  "m \<le> length sols \<Longrightarrow> backtrack g rc cc pos sols m = Inr (False, g, sols)"
  by (subst backtrack.simps) simp

lemma backtrack_complete:
  assumes "\<not> m \<le> length sols" and "length g * length g \<le> pos"
  shows "backtrack g rc cc pos sols m =
     (case isValidSolution g rc cc of
        Inl e \<Rightarrow> Inl e
      | Inr ok \<Rightarrow> Inr (length (if ok then sols @ [g] else sols) < m, g, if ok then sols @ [g] else sols))"
  using assms
  by (subst backtrack.simps) (simp add: Let_def copy2DArray_def split: sum.splits)

lemma branch_cases [consumes 1, case_names pruned descend]:
  assumes "branch g rc cc row col pos sols m v = Inr (c, g', s')"
  obtains
    (pruned) "isValidPartial (set_cell g row col v) rc cc row col = Inr False"
      "c" "g' = set_cell g row col v" "s' = sols"
  | (descend) "isValidPartial (set_cell g row col v) rc cc row col = Inr True"
      "backtrack (set_cell g row col v) rc cc (pos + 1) sols m = Inr (c, g', s')"
  using assms unfolding branch_def
  by (cases "isValidPartial (set_cell g row col v) rc cc row col") (auto split: if_splits)

lemma backtrack_cases [consumes 1, case_names full complete stop1 both]:
  assumes "backtrack g rc cc pos sols m = Inr (c, g', s')"
  obtains
    (full) "m \<le> length sols" "\<not> c" "g' = g" "s' = sols"
  | (complete) ok where "\<not> m \<le> length sols" "length g * length g \<le> pos"
      "isValidSolution g rc cc = Inr ok" "g' = g" "s' = (if ok then sols @ [g] else sols)"
      "c \<longleftrightarrow> length s' < m"
  | (stop1) g1 where "\<not> m \<le> length sols" "pos < length g * length g"
      "branch g rc cc (pos div length g) (pos mod length g) pos sols m 1 = Inr (False, g1, s')"
      "\<not> c" "g' = set_cell g1 (pos div length g) (pos mod length g) (- 1)"
  | (both) g1 s1 g0 where "\<not> m \<le> length sols" "pos < length g * length g"
      "branch g rc cc (pos div length g) (pos mod length g) pos sols m 1 = Inr (True, g1, s1)"
      "branch g1 rc cc (pos div length g) (pos mod length g) pos s1 m 0 = Inr (c, g0, s')"
      "g' = set_cell g0 (pos div length g) (pos mod length g) (- 1)"
proof (cases "m \<le> length sols")
  case True
  from assms have "\<not> c" "g' = g" "s' = sols"
    unfolding backtrack_full[OF True] by simp_all
  from full[OF True this] show ?thesis .
next
  case nfull: False
  show ?thesis
  proof (cases "length g * length g \<le> pos")
    case True
    note eq = assms[unfolded backtrack_complete[OF nfull True]]
    from eq obtain ok where ok: "isValidSolution g rc cc = Inr ok"
      by (cases "isValidSolution g rc cc") simp_all
    from eq have "g' = g" "s' = (if ok then sols @ [g] else sols)" "c \<longleftrightarrow> length s' < m"
      by (auto simp: ok)
    then show ?thesis using complete[OF nfull True ok] by blast
  next
    case False
    note eq = assms[unfolded backtrack_step[OF nfull False]]
    from False have inside: "pos < length g * length g" by simp
    from eq obtain c1 g1 s1 where
      b1: "branch g rc cc (pos div length g) (pos mod length g) pos sols m 1 = Inr (c1, g1, s1)"
      by (cases "branch g rc cc (pos div length g) (pos mod length g) pos sols m 1") auto
    show ?thesis
    proof (cases c1)
      case False
      with eq b1 have "\<not> c" "g' = set_cell g1 (pos div length g) (pos mod length g) (- 1)"
        "s' = s1" by simp_all
      with b1 False stop1[OF nfull inside, of g1] show ?thesis by simp
    next
      case True
      with eq b1 obtain c0 g0 s0 where
        b0: "branch g1 rc cc (pos div length g) (pos mod length g) pos s1 m 0 = Inr (c0, g0, s0)"
        by (cases "branch g1 rc cc (pos div length g) (pos mod length g) pos s1 m 0") auto
      with eq b1 True have "c0 = c" "g' = set_cell g0 (pos div length g) (pos mod length g) (- 1)"
        "s0 = s'" by simp_all
      with b1 b0 True both[OF nfull inside, of g1 s1 g0] show ?thesis by simp
    qed
  qed
qed

lemma set_cell_overwrite: "set_cell (set_cell g r c v) r c w = set_cell g r c w"
  by (cases "r < length g") (simp_all add: set_cell_def list_update_beyond)

lemma set_cell_same: "g ! r ! c = v \<Longrightarrow> set_cell g r c v = g"
  by (auto simp: set_cell_def)

lemma length_set_cell [simp]: "length (set_cell g r c v) = length g"
  by (simp add: set_cell_def)

lemma cell_at_set_cell_other:
  assumes "p \<noteq> q"
  shows "cell_at (set_cell g (q div length g) (q mod length g) v) p = cell_at g p"
proof -
  from assms have "p div length g \<noteq> q div length g \<or> p mod length g \<noteq> q mod length g"
    by (metis div_mult_mod_eq)
  then show ?thesis
    by (cases "q div length g < length g")
       (auto simp: cell_at_def set_cell_def list_update_beyond nth_list_update)
qed

lemma unknown_from_iff:
  "unknown_from g pos \<longleftrightarrow> (\<forall>p. pos \<le> p \<and> p < length g * length g \<longrightarrow> cell_at g p = - 1)"
  by (auto simp: unknown_from_def list_all_iff)

lemma unknown_from_set_cell:
  "unknown_from g pos \<Longrightarrow> unknown_from (set_cell g (pos div length g) (pos mod length g) v) (pos + 1)"
  by (simp add: unknown_from_iff cell_at_set_cell_other)

lemma backtrack_frame:
  assumes "unknown_from g pos" and "backtrack g rc cc pos sols m = Inr (c, g', s')"
  shows "g' = g"
  using assms
proof (induction "length g * length g - pos" arbitrary: g pos sols c g' s' rule: less_induct)
  case less
  let ?row = "pos div length g" and ?col = "pos mod length g"
  have br: "\<exists>w. h' = set_cell h ?row ?col w"
    if "branch h rc cc ?row ?col pos ss m v = Inr (d, h', ss')" "pos < length g * length g"
      "\<exists>w. h = set_cell g ?row ?col w"
    for h ss v d h' ss'
    using that(1)
  proof (cases rule: branch_cases)
    case pruned
    with that(3) show ?thesis by (auto simp: set_cell_overwrite)
  next
    case descend
    from that(3) obtain w where h: "h = set_cell g ?row ?col w" by blast
    have "unknown_from (set_cell h ?row ?col v) (pos + 1)"
      using unknown_from_set_cell[OF less.prems(1), of v] by (simp add: h set_cell_overwrite)
    from less.hyps[OF _ this descend(2)] that(2) h
    have "h' = set_cell h ?row ?col v" by simp
    with h show ?thesis by (auto simp: set_cell_overwrite)
  qed
  from less.prems(2) show ?case
  proof (cases rule: backtrack_cases)
    case full
    then show ?thesis by simp
  next
    case (complete ok)
    then show ?thesis by simp
  next
    case (stop1 g1)
    from less.prems(1) stop1(2) have cell: "g ! ?row ! ?col = - 1"
      by (simp add: unknown_from_iff cell_at_def)
    have "\<exists>w. g = set_cell g ?row ?col w"
      using set_cell_same[OF cell] by metis
    from br[OF stop1(3) stop1(2) this] stop1(5) cell show ?thesis
      by (auto simp: set_cell_overwrite set_cell_same)
  next
    case (both g1 s1 g0)
    from less.prems(1) both(2) have cell: "g ! ?row ! ?col = - 1"
      by (simp add: unknown_from_iff cell_at_def)
    have "\<exists>w. g = set_cell g ?row ?col w"
      using set_cell_same[OF cell] by metis
    from br[OF both(3) both(2) this] obtain w1 where g1: "g1 = set_cell g ?row ?col w1" by blast
    then have "\<exists>w. g1 = set_cell g ?row ?col w" by blast
    from br[OF both(4) both(2) this] obtain w0 where "g0 = set_cell g1 ?row ?col w0" by blast
    with g1 both(5) cell show ?thesis
      by (simp add: set_cell_overwrite set_cell_same)
  qed
qed

lemma backtrack_bound:
  assumes "backtrack g rc cc pos sols m = Inr (c, g', s')" and "length sols \<le> m"
  shows "length s' \<le> m \<and> length g' = length g"
  using assms
proof (induction "length g * length g - pos" arbitrary: g pos sols c g' s' rule: less_induct)
  case less
  let ?row = "pos div length g" and ?col = "pos mod length g"
  have br: "length ss' \<le> m \<and> length h' = length g"
    if "branch h rc cc ?row ?col pos ss m v = Inr (d, h', ss')" "pos < length g * length g"
      "length h = length g" "length ss \<le> m"
    for h ss v d h' ss'
    using that(1)
  proof (cases rule: branch_cases)
    case pruned
    with that show ?thesis by simp
  next
    case descend
    from less.hyps[OF _ descend(2)] that show ?thesis by simp
  qed
  from less.prems(1) show ?case
  proof (cases rule: backtrack_cases)
    case full
    with less.prems show ?thesis by simp
  next
    case (complete ok)
    then show ?thesis by auto
  next
    case (stop1 g1)
    from br[OF stop1(3) stop1(2) refl less.prems(2)] stop1(5) show ?thesis by simp
  next
    case (both g1 s1 g0)
    from br[OF both(3) both(2) refl less.prems(2)] have "length s1 \<le> m" "length g1 = length g"
      by simp_all
    from br[OF both(4) both(2) this(2,1)] both(5) show ?thesis by simp
  qed
qed

lemma create2DArray_replicate: "create2DArray r c v = replicate r (replicate c v)"
  by (simp add: create2DArray_def map_replicate_const)

lemma unknown_from_create: "unknown_from (create2DArray n n (- 1)) 0"
proof -
  have "cell_at (create2DArray n n (- 1)) p = - 1" if "p < n * n" for p
  proof -
    from that have "0 < n" by (cases n) simp_all
    moreover from that have "p div n < n" by (simp add: less_mult_imp_div_less)
    ultimately show ?thesis by (simp add: cell_at_def create2DArray_replicate)
  qed
  then show ?thesis by (simp add: unknown_from_iff create2DArray_replicate)
qed

lemma solve_length_bound:
  assumes "solve rc cc m = Inr r"
  shows "length (solutions r) \<le> m"
proof -
  from assms obtain c g' s' where
    run: "backtrack (create2DArray (length rc) (length rc) (- 1)) rc cc 0 [] m = Inr (c, g', s')"
    and r: "r = \<lparr>solutions = s', unique = (length s' = 1), solvable = (length s' > 0)\<rparr>"
    by (auto simp: solve_def Let_def split: sum.splits)
  from backtrack_bound[OF run] r show ?thesis by simp
qed

lemma solve_flags:
  assumes "solve rc cc m = Inr r"
  shows "unique r = (length (solutions r) = 1)" and "solvable r = (length (solutions r) > 0)"
  using assms by (auto simp: solve_def Let_def split: sum.splits)

lemma two_by_two_1: "solve [[1],[1]] [[1],[1]] 1 =
   Inr \<lparr>solutions = [[[1,0],[0,1]]], unique = True, solvable = True\<rparr>"
  by code_simp

lemma segments_within_nth:
  "length segs \<le> length clues \<Longrightarrow>
     segments_within segs clues \<longleftrightarrow> (\<forall>i<length segs. segs ! i \<le> clues ! i)"
proof (induction segs clues rule: segments_within.induct)
  case (1 clues)
  then show ?case by simp
next
  case (2 s ss)
  then show ?case by simp
next
  case (3 s ss c cs)
  then show ?case by (auto simp: nth_Cons split: nat.splits)
qed

lemma fits_iff:
  "fits segs clues \<longleftrightarrow>
     length segs \<le> length clues \<and> (\<forall>i<length segs. segs ! i \<le> clues ! i)"
  using segments_within_nth[of segs clues] by (auto simp: fits_def)

lemma fits_refl: "fits xs xs"
  by (simp add: fits_iff)

lemma fits_trans: "fits xs ys \<Longrightarrow> fits ys zs \<Longrightarrow> fits xs zs"
  unfolding fits_iff by (meson le_trans less_le_trans order_trans)

lemma fits_open_run_grow: "0 \<le> c \<Longrightarrow> fits (open_run cl c) (cl @ [c + 1])"
  by (auto simp: fits_iff open_run_def nth_append)

lemma canMatchClues_fits:
  "canMatchClues line (Some clues) = Inr (fits (segments_loop line [] False) clues)"
  by (auto simp: fits_def Let_def canMatchClues.simps(2))

declare cluesMatch.simps(2) [simp del] canMatchClues.simps(2) [simp del]

declare cluesMatch_Some [simp] canMatchClues_fits [simp]

lemma segments_loop_unknown: "segments_loop (replicate k (- 1)) segs inSeg = segs"
  by (induction k) simp_all

lemma segments_loop_prefix:
  assumes "set pre \<subseteq> {0, 1}" and "0 \<le> c" and "inSeg \<longleftrightarrow> 0 < c"
    and "calculateLine_loop pre cl c = (cl', c')"
  shows "segments_loop (pre @ replicate k (- 1)) (open_run cl c) inSeg = open_run cl' c'"
  using assms
proof (induction pre arbitrary: cl c inSeg)
  case Nil
  then show ?case by (simp add: segments_loop_unknown)
next
  case (Cons x pre)
  from Cons.prems(1) have x: "x = 0 \<or> x = 1" and pre: "set pre \<subseteq> {0, 1}" by auto
  show ?case
  proof (cases "x = 1")
    case True
    with Cons.prems have loop: "calculateLine_loop pre cl (c + 1) = (cl', c')" by simp
    have upd: "(let segments1 = (if \<not> inSeg then open_run cl c @ [0] else open_run cl c);
                    k = length segments1 - 1
                in segments1[k := segments1 ! k + 1]) = open_run cl (c + 1)"
      using Cons.prems(2,3) by (auto simp: open_run_def Let_def nth_append)
    from Cons.IH[OF pre _ _ loop, of True] Cons.prems(2)
    have "segments_loop (pre @ replicate k (- 1)) (open_run cl (c + 1)) True = open_run cl' c'"
      by simp
    with True upd show ?thesis by (simp add: Let_def)
  next
    case False
    with x have x0: "x = 0" by simp
    show ?thesis
    proof (cases "0 < c")
      case True
      with x0 Cons.prems have loop: "calculateLine_loop pre (cl @ [c]) 0 = (cl', c')" by simp
      from Cons.IH[OF pre _ _ loop, of False]
      have "segments_loop (pre @ replicate k (- 1)) (open_run (cl @ [c]) 0) False = open_run cl' c'"
        by simp
      with x0 True show ?thesis by (simp add: open_run_def)
    next
      case False
      with x0 Cons.prems have loop: "calculateLine_loop pre cl c = (cl', c')" by simp
      from Cons.IH[OF pre Cons.prems(2) _ loop, of False] False
      have "segments_loop (pre @ replicate k (- 1)) (open_run cl c) False = open_run cl' c'"
        by simp
      with x0 show ?thesis by simp
    qed
  qed
qed

lemma calculateLine_loop_grows:
  assumes "0 \<le> c" and "calculateLine_loop ext cl c = (cl', c')"
  shows "fits (open_run cl c) (open_run cl' c')"
  using assms
proof (induction ext arbitrary: cl c)
  case Nil
  then show ?case by (simp add: fits_refl)
next
  case (Cons x ext)
  show ?case
  proof (cases "x = 1")
    case True
    with Cons.prems have loop: "calculateLine_loop ext cl (c + 1) = (cl', c')" by simp
    from Cons.IH[OF _ loop] Cons.prems(1)
    have "fits (open_run cl (c + 1)) (open_run cl' c')" by simp
    moreover from Cons.prems(1) have "open_run cl (c + 1) = cl @ [c + 1]"
      by (simp add: open_run_def)
    ultimately show ?thesis
      using fits_trans[OF fits_open_run_grow[OF Cons.prems(1), of cl]] by simp
  next
    case nf: False
    show ?thesis
    proof (cases "0 < c")
      case True
      with nf Cons.prems have loop: "calculateLine_loop ext (cl @ [c]) 0 = (cl', c')" by simp
      from Cons.IH[OF _ loop] True show ?thesis by (simp add: open_run_def)
    next
      case False
      with nf Cons.prems have loop: "calculateLine_loop ext cl c = (cl', c')" by simp
      from Cons.IH[OF Cons.prems(1) loop] show ?thesis .
    qed
  qed
qed

lemma calculateLine_open_run:
  "calculateLine_loop line [] 0 = (cl, c) \<Longrightarrow>
     calculateLine line = (if open_run cl c = [] then [0] else open_run cl c)"
  by (auto simp: calculateLine_def open_run_def Let_def)

lemma canMatchClues_sound:
  assumes "set pre \<subseteq> {0, 1}"
  shows "canMatchClues (pre @ replicate k (- 1)) (Some (calculateLine (pre @ ext))) = Inr True"
proof -
  obtain cl1 c1 where l1: "calculateLine_loop pre [] 0 = (cl1, c1)"
    by (cases "calculateLine_loop pre [] 0")
  obtain cl2 c2 where l2: "calculateLine_loop ext cl1 c1 = (cl2, c2)"
    by (cases "calculateLine_loop ext cl1 c1")
  from calculateLine_loop_inv[OF _ _ l1] have c1: "0 \<le> c1" by simp
  have whole: "calculateLine_loop (pre @ ext) [] 0 = (cl2, c2)"
    by (simp add: calculateLine_loop_append l1 l2)
  have "segments_loop (pre @ replicate k (- 1)) (open_run [] 0) False = open_run cl1 c1"
    by (rule segments_loop_prefix[OF assms _ _ l1]) simp_all
  then have segs: "segments_loop (pre @ replicate k (- 1)) [] False = open_run cl1 c1"
    by (simp add: open_run_def)
  have w: "fits (open_run cl1 c1) (open_run cl2 c2)"
    by (rule calculateLine_loop_grows[OF c1 l2])
  have "fits (open_run cl1 c1) (calculateLine (pre @ ext))"
  proof (cases "open_run cl2 c2 = []")
    case True
    with w have "open_run cl1 c1 = []" by (simp add: fits_iff)
    with True show ?thesis by (simp add: calculateLine_open_run[OF whole] fits_iff)
  next
    case False
    with w show ?thesis by (simp add: calculateLine_open_run[OF whole])
  qed
  then show ?thesis by (simp add: segs)
qed

lemma check_line_sound:
  assumes "set pre \<subseteq> {0, 1}" and "length ext = k"
  shows "check_line (pre @ replicate k (- 1)) (Some (calculateLine (pre @ ext))) = Inr True"
proof (cases k)
  case 0
  with assms have "list_all (\<lambda>cell. cell \<noteq> - 1) pre" by (auto simp: list_all_iff)
  with 0 assms show ?thesis by (simp add: check_line_def cluesMatch_Some)
next
  case (Suc j)
  then have nc: "list_all (\<lambda>cell. cell \<noteq> - 1) (pre @ replicate k (- 1)) = False" by simp
  show ?thesis
    unfolding check_line_def nc if_False by (rule canMatchClues_sound[OF assms(1)])
qed

lemma isValidPartial_check_line:
  "isValidPartial g rc cc row col =
     (case check_line (g ! row) (clue_at rc row) of
        Inl e \<Rightarrow> Inl e
      | Inr rowOk \<Rightarrow> if \<not> rowOk then Inr False else check_line (column_of g col) (clue_at cc col))"
  by (simp add: isValidPartial_def check_line_def Let_def split: sum.splits)

lemma check_line_total: "\<exists>b. check_line line (Some clues) = Inr b"
  by (simp add: check_line_def cluesMatch_Some canMatchClues_fits)

lemma assigned_upto_iff:
  "assigned_upto g pos \<longleftrightarrow>
     (\<forall>p<length g * length g.
        (p < pos \<longrightarrow> cell_at g p = 0 \<or> cell_at g p = 1) \<and> (pos \<le> p \<longrightarrow> cell_at g p = - 1))"
  by (auto simp: assigned_upto_def list_all_iff)

lemma square_iff: "square g \<longleftrightarrow> (\<forall>r<length g. length (g ! r) = length g)"
  by (simp add: square_def list_all_length)

lemma pos_div_less: "p < n * n \<Longrightarrow> p div n < (n::nat)"
  by (simp add: less_mult_imp_div_less)

lemma pos_mod_less: "p < n * n \<Longrightarrow> p mod n < (n::nat)"
  by (cases n) simp_all

lemma pos_of_rc: "r < n \<Longrightarrow> c < n \<Longrightarrow> r * n + c < n * (n::nat)"
proof -
  assume "r < n" "c < n"
  then have "r * n + c < r * n + n" by simp
  also have "\<dots> = (Suc r) * n" by simp
  also from \<open>r < n\<close> have "\<dots> \<le> n * n" by (metis Suc_leI mult_le_mono1)
  finally show ?thesis .
qed

lemma cell_at_rc: "c < length g \<Longrightarrow> cell_at g (r * length g + c) = g ! r ! c"
proof -
  have "(r * n + c) div n = r \<and> (r * n + c) mod n = c" if "c < n" for n :: nat
    using that by simp
  moreover assume "c < length g"
  ultimately show ?thesis by (simp only: cell_at_def)
qed

lemma square_set_cell: "square g \<Longrightarrow> square (set_cell g r c v)"
proof -
  assume sq: "square g"
  have "length (set_cell g r c v ! ra) = length g" if "ra < length g" for ra
    using sq that by (cases "ra = r") (simp_all add: square_iff set_cell_def)
  then show ?thesis by (simp add: square_iff)
qed

lemma cell_at_set_cell_same:
  assumes "square g" and "p < length g * length g"
  shows "cell_at (set_cell g (p div length g) (p mod length g) v) p = v"
proof -
  from assms(2) have r: "p div length g < length g" and c: "p mod length g < length g"
    by (rule pos_div_less, rule pos_mod_less)
  with assms(1) have "p mod length g < length (g ! (p div length g))"
    by (simp add: square_iff)
  with r show ?thesis by (simp add: cell_at_def set_cell_def)
qed

lemma assigned_upto_set_cell:
  assumes "square g" and "assigned_upto g pos" and "pos < length g * length g"
    and "v = 0 \<or> v = 1"
  shows "assigned_upto (set_cell g (pos div length g) (pos mod length g) v) (pos + 1)"
  unfolding assigned_upto_iff
proof (intro allI impI)
  fix p
  assume p: "p < length (set_cell g (pos div length g) (pos mod length g) v) *
                 length (set_cell g (pos div length g) (pos mod length g) v)"
  show "(p < pos + 1 \<longrightarrow>
          cell_at (set_cell g (pos div length g) (pos mod length g) v) p = 0 \<or>
          cell_at (set_cell g (pos div length g) (pos mod length g) v) p = 1) \<and>
        (pos + 1 \<le> p \<longrightarrow> cell_at (set_cell g (pos div length g) (pos mod length g) v) p = - 1)"
  proof (cases "p = pos")
    case True
    with assms(1,3,4) show ?thesis by (simp add: cell_at_set_cell_same)
  next
    case False
    with assms(2) p show ?thesis
      by (auto simp: cell_at_set_cell_other assigned_upto_iff)
  qed
qed

lemma grid_eqI:
  assumes "square g" and "square h" and "length h = length g"
    and "\<And>p. p < length g * length g \<Longrightarrow> cell_at h p = cell_at g p"
  shows "h = g"
proof (rule nth_equalityI)
  show "length h = length g" by fact
next
  fix r
  assume r: "r < length h"
  show "h ! r = g ! r"
  proof (rule nth_equalityI)
    from r assms(1,2,3) show "length (h ! r) = length (g ! r)" by (simp add: square_iff)
  next
    fix c
    assume "c < length (h ! r)"
    with r assms(2,3) have c: "c < length g" by (simp add: square_iff)
    with r assms(3) have "r * length g + c < length g * length g" by (simp add: pos_of_rc)
    from assms(4)[OF this] c assms(3) show "h ! r ! c = g ! r ! c"
      using cell_at_rc[of c g r] cell_at_rc[of c h r] by simp
  qed
qed

lemma is_grid_iff:
  "is_grid n h \<longleftrightarrow> length h = n \<and> square h \<and> assigned_upto h (n * n)"
proof
  assume g: "is_grid n h"
  then have len: "length h = n" and rows: "\<And>r. r < n \<Longrightarrow> length (h ! r) = n"
    and cells: "\<And>r c. r < n \<Longrightarrow> c < n \<Longrightarrow> h ! r ! c = 0 \<or> h ! r ! c = 1"
    by (auto simp: is_grid_def list_all_length)
  have "cell_at h p = 0 \<or> cell_at h p = 1" if "p < n * n" for p
    using cells[OF pos_div_less[OF that] pos_mod_less[OF that]] len by (simp add: cell_at_def)
  with len rows show "length h = n \<and> square h \<and> assigned_upto h (n * n)"
    by (simp add: square_iff assigned_upto_iff)
next
  assume a: "length h = n \<and> square h \<and> assigned_upto h (n * n)"
  then have len: "length h = n" and sq: "\<And>r. r < n \<Longrightarrow> length (h ! r) = n"
    and as: "\<And>p. p < n * n \<Longrightarrow> cell_at h p = 0 \<or> cell_at h p = 1"
    by (auto simp: square_iff assigned_upto_iff)
  have "h ! r ! c = 0 \<or> h ! r ! c = 1" if "r < n" "c < n" for r c
    using as[OF pos_of_rc[OF that]] cell_at_rc[of c h r] that len by simp
  with len sq show "is_grid n h" by (simp add: is_grid_def list_all_length)
qed

lemma extensions_props:
  assumes "square g" and "assigned_upto g pos" and "pos + k = length g * length g"
    and "h \<in> set (extensions k g pos)"
  shows "length h = length g \<and> square h \<and> assigned_upto h (length g * length g) \<and>
         (\<forall>p<pos. cell_at h p = cell_at g p)"
  using assms
proof (induction k arbitrary: g pos)
  case 0
  then show ?case by simp
next
  case (Suc k)
  let ?gv = "\<lambda>v. set_cell g (pos div length g) (pos mod length g) v"
  from Suc.prems(3) have inside: "pos < length g * length g" by simp
  from Suc.prems(4) obtain v where v: "v = 0 \<or> v = 1" and h: "h \<in> set (extensions k (?gv v) (pos + 1))"
    by auto
  have "length h = length (?gv v) \<and> square h \<and>
        assigned_upto h (length (?gv v) * length (?gv v)) \<and>
        (\<forall>p<pos + 1. cell_at h p = cell_at (?gv v) p)"
  proof (rule Suc.IH[OF _ _ _ h])
    show "square (?gv v)" by (rule square_set_cell[OF Suc.prems(1)])
    show "assigned_upto (?gv v) (pos + 1)"
      by (rule assigned_upto_set_cell[OF Suc.prems(1,2) inside v])
    from Suc.prems(3) show "pos + 1 + k = length (?gv v) * length (?gv v)" by simp
  qed
  then show ?case by (auto simp: cell_at_set_cell_other)
qed

lemma extensions_cell:
  assumes "square g" and "assigned_upto g pos" and "pos + Suc k = length g * length g"
    and "v = 0 \<or> v = 1"
    and "h \<in> set (extensions k (set_cell g (pos div length g) (pos mod length g) v) (pos + 1))"
  shows "cell_at h pos = v"
proof -
  let ?gv = "set_cell g (pos div length g) (pos mod length g) v"
  from assms(3) have inside: "pos < length g * length g" by simp
  have "\<forall>p<pos + 1. cell_at h p = cell_at ?gv p"
    using extensions_props[OF square_set_cell[OF assms(1)]
        assigned_upto_set_cell[OF assms(1,2) inside assms(4)] _ assms(5)] assms(3)
    by simp
  then have "cell_at h pos = cell_at ?gv pos" by simp
  with assms(1) inside show ?thesis by (simp add: cell_at_set_cell_same)
qed

lemma extensions_distinct:
  assumes "square g" and "assigned_upto g pos" and "pos + k = length g * length g"
  shows "distinct (extensions k g pos)"
  using assms
proof (induction k arbitrary: g pos)
  case 0
  then show ?case by simp
next
  case (Suc k)
  let ?gv = "\<lambda>v. set_cell g (pos div length g) (pos mod length g) v"
  from Suc.prems(3) have inside: "pos < length g * length g" by simp
  have d: "distinct (extensions k (?gv v) (pos + 1))" if "v = 0 \<or> v = 1" for v
  proof (rule Suc.IH)
    show "square (?gv v)" by (rule square_set_cell[OF Suc.prems(1)])
    show "assigned_upto (?gv v) (pos + 1)"
      by (rule assigned_upto_set_cell[OF Suc.prems(1,2) inside that])
    from Suc.prems(3) show "pos + 1 + k = length (?gv v) * length (?gv v)" by simp
  qed
  have "set (extensions k (?gv 1) (pos + 1)) \<inter> set (extensions k (?gv 0) (pos + 1)) = {}"
  proof (rule ccontr)
    assume "\<not> ?thesis"
    then obtain h where h1: "h \<in> set (extensions k (?gv 1) (pos + 1))"
      and h0: "h \<in> set (extensions k (?gv 0) (pos + 1))" by blast
    from extensions_cell[OF Suc.prems(1,2,3) _ h1] extensions_cell[OF Suc.prems(1,2,3) _ h0]
    show False by simp
  qed
  with d[of 1] d[of 0] show ?case by simp
qed

lemma extensions_complete:
  assumes "square g" and "assigned_upto g pos" and "pos + k = length g * length g"
    and "square h" and "length h = length g" and "assigned_upto h (length g * length g)"
    and "\<forall>p<pos. cell_at h p = cell_at g p"
  shows "h \<in> set (extensions k g pos)"
  using assms
proof (induction k arbitrary: g pos)
  case 0
  have "h = g"
  proof (rule grid_eqI[OF "0.prems"(1,4,5)])
    fix p assume "p < length g * length g"
    with "0.prems"(3,7) show "cell_at h p = cell_at g p" by simp
  qed
  then show ?case by simp
next
  case (Suc k)
  let ?gv = "\<lambda>v. set_cell g (pos div length g) (pos mod length g) v"
  from Suc.prems(3) have inside: "pos < length g * length g" by simp
  define v where "v = cell_at h pos"
  from Suc.prems(5,6) inside have v: "v = 0 \<or> v = 1" by (simp add: v_def assigned_upto_iff)
  have "h \<in> set (extensions k (?gv v) (pos + 1))"
  proof (rule Suc.IH)
    show "square (?gv v)" by (rule square_set_cell[OF Suc.prems(1)])
    show "assigned_upto (?gv v) (pos + 1)"
      by (rule assigned_upto_set_cell[OF Suc.prems(1,2) inside v])
    from Suc.prems(3) show "pos + 1 + k = length (?gv v) * length (?gv v)" by simp
    show "square h" by fact
    from Suc.prems(5) show "length h = length (?gv v)" by simp
    from Suc.prems(6) show "assigned_upto h (length (?gv v) * length (?gv v))" by simp
    show "\<forall>p<pos + 1. cell_at h p = cell_at (?gv v) p"
    proof (intro allI impI)
      fix p assume "p < pos + 1"
      show "cell_at h p = cell_at (?gv v) p"
      proof (cases "p = pos")
        case True
        with Suc.prems(1) inside show ?thesis by (simp add: cell_at_set_cell_same v_def)
      next
        case False
        with \<open>p < pos + 1\<close> Suc.prems(7) show ?thesis by (simp add: cell_at_set_cell_other)
      qed
    qed
  qed
  with v show ?case by auto
qed

lemma isValidSolution_rows_char:
  "\<forall>r\<in>set idxs. r < length rc \<Longrightarrow>
     isValidSolution_rows g rc idxs = Inr (\<forall>r\<in>set idxs. calculateLine (g ! r) = rc ! r)"
  by (induction idxs) (auto simp: clue_at_def)

lemma isValidSolution_cols_char:
  "\<forall>c\<in>set idxs. c < length cc \<Longrightarrow>
     isValidSolution_cols g cc idxs = Inr (\<forall>c\<in>set idxs. calculateLine (column_of g c) = cc ! c)"
  by (induction idxs) (auto simp: clue_at_def)

lemma isValidSolution_char:
  assumes "length g \<le> length rc" and "length g \<le> length cc"
  shows "isValidSolution g rc cc =
     Inr ((\<forall>r<length g. calculateLine (g ! r) = rc ! r) \<and>
          (\<forall>c<length g. calculateLine (column_of g c) = cc ! c))"
proof -
  have r: "isValidSolution_rows g rc [0..<length g] =
      Inr (\<forall>r\<in>set [0..<length g]. calculateLine (g ! r) = rc ! r)"
    using assms(1) by (intro isValidSolution_rows_char) auto
  have c: "isValidSolution_cols g cc [0..<length g] =
      Inr (\<forall>c\<in>set [0..<length g]. calculateLine (column_of g c) = cc ! c)"
    using assms(2) by (intro isValidSolution_cols_char) auto
  show ?thesis
    unfolding isValidSolution_def Let_def r c by auto
qed

lemma accepts_iff:
  assumes "length g \<le> length rc" and "length g \<le> length cc"
  shows "accepts rc cc g \<longleftrightarrow>
     (\<forall>r<length g. calculateLine (g ! r) = rc ! r) \<and>
     (\<forall>c<length g. calculateLine (column_of g c) = cc ! c)"
  by (simp add: accepts_def isValidSolution_char[OF assms])

lemma accepts_satisfies:
  assumes "length g = length rc" and "length cc = length rc"
  shows "accepts rc cc g \<longleftrightarrow> satisfies g rc cc"
proof -
  have "accepts rc cc g \<longleftrightarrow>
     (\<forall>r<length g. calculateLine (g ! r) = rc ! r) \<and>
     (\<forall>c<length g. calculateLine (column_of g c) = cc ! c)"
    using assms by (intro accepts_iff) simp_all
  also have "(\<forall>r<length g. calculateLine (g ! r) = rc ! r) \<longleftrightarrow> calculateRows g = rc"
  proof
    assume a: "\<forall>r<length g. calculateLine (g ! r) = rc ! r"
    show "calculateRows g = rc"
      unfolding calculateRows_def
      by (rule nth_equalityI) (use assms(1) a in simp_all)
  next
    assume "calculateRows g = rc"
    then have "rc = map (\<lambda>row. calculateLine row) g" by (simp add: calculateRows_def)
    then show "\<forall>r<length g. calculateLine (g ! r) = rc ! r" by simp
  qed
  also have "(\<forall>c<length g. calculateLine (column_of g c) = cc ! c) \<longleftrightarrow> calculateColumns g = cc"
  proof
    assume a: "\<forall>c<length g. calculateLine (column_of g c) = cc ! c"
    show "calculateColumns g = cc"
      unfolding calculateColumns_def
      by (rule nth_equalityI) (use assms a in simp_all)
  next
    assume "calculateColumns g = cc"
    then have "cc = map (\<lambda>col. calculateLine (column_of g col)) [0..<length g]"
      by (simp add: calculateColumns_def)
    then show "\<forall>c<length g. calculateLine (column_of g c) = cc ! c" by simp
  qed
  finally show ?thesis by (simp add: satisfies_def calculateAll_def)
qed

lemma isValidPartial_total:
  assumes "row < length rc" and "col < length cc"
  shows "\<exists>b. isValidPartial g rc cc row col = Inr b"
proof -
  obtain b1 where b1: "check_line (g ! row) (Some (rc ! row)) = Inr b1"
    using check_line_total by blast
  obtain b2 where b2: "check_line (column_of g col) (Some (cc ! col)) = Inr b2"
    using check_line_total by blast
  from assms b1 b2 show ?thesis
    by (cases b1) (auto simp: isValidPartial_check_line clue_at_def)
qed

lemma partial_line_sound:
  assumes "length L = n" and "length H = n" and "j \<le> n"
    and "\<And>i. i < j \<Longrightarrow> L ! i = H ! i"
    and "\<And>i. j \<le> i \<Longrightarrow> i < n \<Longrightarrow> L ! i = - 1"
    and "set H \<subseteq> {0, 1}"
  shows "check_line L (Some (calculateLine H)) = Inr True"
proof -
  have L: "L = take j H @ replicate (n - j) (- 1)"
  proof (rule nth_equalityI)
    from assms(1,2,3) show "length L = length (take j H @ replicate (n - j) (- 1))" by simp
  next
    fix i assume "i < length L"
    with assms(1) have i: "i < n" by simp
    show "L ! i = (take j H @ replicate (n - j) (- 1)) ! i"
    proof (cases "i < j")
      case True
      with assms(2,3) assms(4)[OF True] show ?thesis by (simp add: nth_append)
    next
      case False
      with i assms(2,3) assms(5)[of i] show ?thesis by (simp add: nth_append)
    qed
  qed
  have "set (take j H) \<subseteq> {0, 1}"
    using assms(6) set_take_subset[of j H] by blast
  moreover have "length (drop j H) = n - j" using assms(2) by simp
  ultimately have "check_line (take j H @ replicate (n - j) (- 1))
      (Some (calculateLine (take j H @ drop j H))) = Inr True"
    by (rule check_line_sound)
  with L show ?thesis by simp
qed

lemma take_stop:
  assumes "m \<le> length (sols @ take (m - length sols) A)"
  shows "sols @ take (m - length sols) (A @ B) = sols @ take (m - length sols) A"
  using assms by (simp add: min_def split: if_splits)

lemma take_continue:
  assumes "length (sols @ take (m - length sols) A) < m"
  shows "(sols @ take (m - length sols) A) @
           take (m - length (sols @ take (m - length sols) A)) B =
         sols @ take (m - length sols) (A @ B)"
  using assms by (simp add: min_def split: if_splits)

lemma row_major_le: "i \<le> row \<Longrightarrow> i * n + c \<le> row * n + (c::nat)"
  by simp

lemma row_major_less:
  assumes "row < i" and "c < n"
  shows "row * n + c < i * n + (c'::nat)"
proof -
  from assms(1) have "Suc row * n \<le> i * n" by (intro mult_le_mono1) simp
  with assms(2) show ?thesis by simp
qed

lemma set_binaryI:
  assumes "\<And>i. i < length xs \<Longrightarrow> xs ! i = 0 \<or> xs ! i = (1::int)"
  shows "set xs \<subseteq> {0, 1}"
proof
  fix x assume "x \<in> set xs"
  then obtain i where "i < length xs" "xs ! i = x" by (auto simp: in_set_conv_nth)
  with assms[of i] show "x \<in> {0, 1}" by auto
qed

lemma prune_sound:
  assumes sq: "square g1" and as: "assigned_upto g1 (pos + 1)"
    and inside: "pos < length g1 * length g1"
    and hlen: "length h = length g1" and hsq: "square h"
    and has: "assigned_upto h (length g1 * length g1)"
    and agree: "\<forall>p<pos + 1. cell_at h p = cell_at g1 p"
    and acc: "accepts rc cc h"
    and lens: "length g1 \<le> length rc" "length g1 \<le> length cc"
  shows "isValidPartial g1 rc cc (pos div length g1) (pos mod length g1) = Inr True"
proof -
  define n where "n = length g1"
  define row where "row = pos div n"
  define col where "col = pos mod n"
  from inside have row: "row < n" and col: "col < n"
    unfolding row_def col_def n_def by (rule pos_div_less, rule pos_mod_less)
  have pos: "pos = row * n + col" by (simp add: row_def col_def)
  have hcell: "h ! r ! c = 0 \<or> h ! r ! c = 1" if "r < n" "c < n" for r c
  proof -
    have "cell_at h (r * length h + c) = h ! r ! c"
      using that(2) hlen by (intro cell_at_rc) (simp add: n_def)
    moreover have "r * n + c < n * n" by (rule pos_of_rc[OF that])
    ultimately show ?thesis using has hlen by (auto simp: assigned_upto_iff n_def)
  qed
  have gcell: "g1 ! r ! c = (if r * n + c \<le> pos then h ! r ! c else - 1)" if "r < n" "c < n" for r c
  proof -
    have a: "cell_at h (r * n + c) = h ! r ! c"
      using cell_at_rc[of c h r] that(2) hlen by (simp add: n_def)
    have b: "cell_at g1 (r * n + c) = g1 ! r ! c"
      using cell_at_rc[of c g1 r] that(2) by (simp add: n_def)
    have q: "r * n + c < n * n" by (rule pos_of_rc[OF that])
    show ?thesis
    proof (cases "r * n + c \<le> pos")
      case True
      with agree a b show ?thesis by simp
    next
      case False
      with as q b show ?thesis by (auto simp: assigned_upto_iff n_def)
    qed
  qed
  have rowlen: "length (g1 ! row) = n" "length (h ! row) = n"
    using sq hsq hlen row by (simp_all add: square_iff n_def)
  have hrow: "set (h ! row) \<subseteq> {0, 1}"
    using hcell[OF row] rowlen(2) by (intro set_binaryI) simp
  have rowok: "check_line (g1 ! row) (Some (calculateLine (h ! row))) = Inr True"
  proof (rule partial_line_sound[where n = n and j = "col + 1", OF rowlen _ _ _ hrow])
    from col show "col + 1 \<le> n" by simp
  next
    fix i assume "i < col + 1"
    with col have "i < n" "row * n + i \<le> pos" by (simp_all add: pos)
    with gcell[OF row] show "g1 ! row ! i = h ! row ! i" by simp
  next
    fix i assume "col + 1 \<le> i" "i < n"
    then have "\<not> row * n + i \<le> pos" by (simp add: pos)
    with gcell[OF row \<open>i < n\<close>] show "g1 ! row ! i = - 1" by simp
  qed
  have collen: "length (column_of g1 col) = n" "length (column_of h col) = n"
    using hlen by (simp_all add: column_of_def n_def)
  have colnth: "column_of g1 col ! i = g1 ! i ! col" "column_of h col ! i = h ! i ! col"
    if "i < n" for i
    using that hlen by (simp_all add: column_of_def n_def)
  have hcol: "set (column_of h col) \<subseteq> {0, 1}"
    using hcell[OF _ col] collen(2) colnth(2) by (intro set_binaryI) simp
  have colok: "check_line (column_of g1 col) (Some (calculateLine (column_of h col))) = Inr True"
  proof (rule partial_line_sound[where n = n and j = "row + 1", OF collen _ _ _ hcol])
    from row show "row + 1 \<le> n" by simp
  next
    fix i assume i: "i < row + 1"
    with row have "i < n" by simp
    moreover from i have "i * n + col \<le> pos" unfolding pos by (intro row_major_le) simp
    ultimately show "column_of g1 col ! i = column_of h col ! i"
      using gcell[OF _ col, of i] colnth[of i] by simp
  next
    fix i assume i: "row + 1 \<le> i" "i < n"
    then have "row * n + col < i * n + col" by (intro row_major_less col) simp
    then have "\<not> i * n + col \<le> pos" by (simp add: pos)
    with gcell[OF i(2) col] colnth[OF i(2)] show "column_of g1 col ! i = - 1" by simp
  qed
  from acc hlen lens have "calculateLine (h ! row) = rc ! row"
    and "calculateLine (column_of h col) = cc ! col"
    using row col by (simp_all add: accepts_iff n_def)
  with rowok colok lens row col show ?thesis
    unfolding row_def[symmetric, unfolded n_def] col_def[symmetric, unfolded n_def]
    by (simp add: isValidPartial_check_line clue_at_def n_def)
qed

lemma backtrack_char:
  assumes "square g" and "assigned_upto g pos" and "pos + k = length g * length g"
    and "length g \<le> length rc" and "length g \<le> length cc"
  shows "backtrack g rc cc pos sols m =
     Inr (length (sols @ take (m - length sols) (filter (accepts rc cc) (extensions k g pos))) < m,
          g,
          sols @ take (m - length sols) (filter (accepts rc cc) (extensions k g pos)))"
  using assms
proof (induction k arbitrary: g pos sols)
  case 0
  show ?case
  proof (cases "m \<le> length sols")
    case True
    then show ?thesis by (simp add: backtrack_full)
  next
    case False
    from "0.prems"(3) have past: "length g * length g \<le> pos" by simp
    from False have "0 < m - length sols" by simp
    then have "take (m - length sols) xs = xs" if "length xs \<le> 1" for xs :: "grid list"
      using that by simp
    then have t: "take (m - length sols) (filter (accepts rc cc) [g]) = filter (accepts rc cc) [g]"
      by simp
    show ?thesis
      unfolding backtrack_complete[OF False past] isValidSolution_char[OF "0.prems"(4,5)]
        extensions.simps t
      by (simp add: accepts_def isValidSolution_char[OF "0.prems"(4,5)])
  qed
next
  case (Suc k)
  let ?row = "pos div length g" and ?col = "pos mod length g"
  let ?gv = "\<lambda>v. set_cell g ?row ?col v"
  let ?E = "\<lambda>v. filter (accepts rc cc) (extensions k (?gv v) (pos + 1))"
  from Suc.prems(3) have inside: "pos < length g * length g" by simp
  then have ninside: "\<not> length g * length g \<le> pos" by simp
  from Suc.prems(2) inside have cell: "g ! ?row ! ?col = - 1"
    by (simp add: assigned_upto_iff cell_at_def)
  have restore: "set_cell (?gv v) ?row ?col (- 1) = g" for v
    by (simp add: set_cell_overwrite set_cell_same[OF cell])
  have rowcol: "?row < length rc" "?col < length cc"
    using pos_div_less[OF inside] pos_mod_less[OF inside] Suc.prems(4,5) by simp_all
  have gv: "square (?gv v)" "assigned_upto (?gv v) (pos + 1)"
    "pos + 1 + k = length (?gv v) * length (?gv v)"
    "length (?gv v) \<le> length rc" "length (?gv v) \<le> length cc"
    if "v = 0 \<or> v = 1" for v
    using square_set_cell[OF Suc.prems(1)] assigned_upto_set_cell[OF Suc.prems(1,2) inside that]
      Suc.prems(3,4,5) by simp_all
  have br: "branch g' rc cc ?row ?col pos ss m v =
      Inr (length (ss @ take (m - length ss) (?E v)) < m, ?gv v, ss @ take (m - length ss) (?E v))"
    if v: "v = 0 \<or> v = 1" and g': "set_cell g' ?row ?col v = ?gv v" and ss: "\<not> m \<le> length ss"
    for g' ss v
  proof -
    from isValidPartial_total[OF rowcol] obtain b where
      b: "isValidPartial (?gv v) rc cc ?row ?col = Inr b" by blast
    show ?thesis
    proof (cases b)
      case True
      with b have "branch g' rc cc ?row ?col pos ss m v = backtrack (?gv v) rc cc (pos + 1) ss m"
        unfolding branch_def g' by simp
      also have "\<dots> = Inr (length (ss @ take (m - length ss) (?E v)) < m, ?gv v,
          ss @ take (m - length ss) (?E v))"
        by (rule Suc.IH[OF gv[OF v]])
      finally show ?thesis .
    next
      case False
      have "?E v = []"
      proof (rule ccontr)
        assume "?E v \<noteq> []"
        then obtain h where h: "h \<in> set (extensions k (?gv v) (pos + 1))" and acc: "accepts rc cc h"
          by (metis filter_False)
        from extensions_props[OF gv(1,2,3)[OF v] h]
        have hp: "length h = length (?gv v)" "square h"
          "assigned_upto h (length (?gv v) * length (?gv v))"
          "\<forall>p<pos + 1. cell_at h p = cell_at (?gv v) p" by simp_all
        have "isValidPartial (?gv v) rc cc (pos div length (?gv v)) (pos mod length (?gv v)) = Inr True"
          by (rule prune_sound[OF gv(1,2)[OF v] _ hp acc gv(4,5)[OF v]]) (use inside in simp)
        with b False show False by simp
      qed
      with b False ss show ?thesis
        unfolding branch_def g' by simp
    qed
  qed
  show ?case
  proof (cases "m \<le> length sols")
    case True
    then show ?thesis by (simp add: backtrack_full)
  next
    case nfull: False
    define E1 where "E1 = ?E 1"
    define E0 where "E0 = ?E 0"
    define s1 where "s1 = sols @ take (m - length sols) E1"
    define s0 where "s0 = s1 @ take (m - length s1) E0"
    define T where "T = sols @ take (m - length sols) (filter (accepts rc cc) (extensions (Suc k) g pos))"
    have b1: "branch g rc cc ?row ?col pos sols m 1 = Inr (length s1 < m, ?gv 1, s1)"
      unfolding s1_def E1_def by (rule br[OF _ refl nfull]) simp
    have T: "T = sols @ take (m - length sols) (E1 @ E0)"
      by (simp add: T_def E1_def E0_def)
    have "backtrack g rc cc pos sols m = Inr (length T < m, g, T)"
    proof (cases "length s1 < m")
      case False
      then have "m \<le> length (sols @ take (m - length sols) E1)" by (simp add: s1_def)
      from take_stop[OF this, of E0] have "T = s1" by (simp only: T s1_def)
      with False show ?thesis
        unfolding backtrack_step[OF nfull ninside] b1
        by (simp add: restore)
    next
      case True
      then have n1: "\<not> m \<le> length s1" by simp
      have b0: "branch (?gv 1) rc cc ?row ?col pos s1 m 0 = Inr (length s0 < m, ?gv 0, s0)"
        unfolding s0_def E0_def by (rule br[OF _ _ n1]) (simp_all add: set_cell_overwrite)
      from True have "length (sols @ take (m - length sols) E1) < m" by (simp add: s1_def)
      from take_continue[OF this, of E0] have "T = s0" by (simp only: T s0_def s1_def)
      with True show ?thesis
        unfolding backtrack_step[OF nfull ninside] b1
        by (simp add: restore b0)
    qed
    then show ?thesis by (simp only: T_def)
  qed
qed

lemma length_create2DArray [simp]: "length (create2DArray n n v) = n"
  by (simp add: create2DArray_replicate)

lemma square_create2DArray: "square (create2DArray n n v)"
  by (simp add: square_iff create2DArray_replicate)

lemma assigned_upto_create2DArray: "assigned_upto (create2DArray n n (- 1)) 0"
  using unknown_from_create[of n]
  by (simp add: assigned_upto_iff unknown_from_iff)

lemma backtrack_initial:
  assumes "length rc \<le> length cc"
  shows "backtrack (create2DArray (length rc) (length rc) (- 1)) rc cc 0 [] m =
     Inr (length (take m (all_solutions rc cc)) < m,
          create2DArray (length rc) (length rc) (- 1),
          take m (all_solutions rc cc))"
proof -
  have "backtrack (create2DArray (length rc) (length rc) (- 1)) rc cc 0 [] m =
     Inr (length ([] @ take (m - length ([] :: grid list)) (all_solutions rc cc)) < m,
          create2DArray (length rc) (length rc) (- 1),
          [] @ take (m - length ([] :: grid list)) (all_solutions rc cc))"
    unfolding all_solutions_def
    by (rule backtrack_char[OF square_create2DArray assigned_upto_create2DArray])
       (use assms in simp_all)
  then show ?thesis by simp
qed

lemma solve_char:
  assumes "length rc \<le> length cc"
  shows "solve rc cc m =
     Inr \<lparr>solutions = take m (all_solutions rc cc),
          unique = (length (take m (all_solutions rc cc)) = 1),
          solvable = (length (take m (all_solutions rc cc)) > 0)\<rparr>"
  unfolding solve_def Let_def backtrack_initial[OF assms] by auto

lemma all_solutions_distinct: "distinct (all_solutions rc cc)"
  unfolding all_solutions_def
  by (intro distinct_filter extensions_distinct square_create2DArray assigned_upto_create2DArray)
     simp

lemma all_solutions_grid:
  assumes "h \<in> set (all_solutions rc cc)"
  shows "is_grid (length rc) h \<and> accepts rc cc h"
proof -
  from assms have h: "h \<in> set (extensions (length rc * length rc)
      (create2DArray (length rc) (length rc) (- 1)) 0)" and acc: "accepts rc cc h"
    by (simp_all add: all_solutions_def)
  from extensions_props[OF square_create2DArray assigned_upto_create2DArray _ h]
  have "length h = length rc \<and> square h \<and> assigned_upto h (length rc * length rc)" by simp
  with acc show ?thesis by (simp add: is_grid_iff)
qed

lemma all_solutions_complete:
  assumes "is_grid (length rc) h" and "accepts rc cc h"
  shows "h \<in> set (all_solutions rc cc)"
proof -
  from assms(1) have "length h = length rc" "square h" "assigned_upto h (length rc * length rc)"
    by (simp_all add: is_grid_iff)
  then have "h \<in> set (extensions (length rc * length rc)
      (create2DArray (length rc) (length rc) (- 1)) 0)"
    by (intro extensions_complete square_create2DArray assigned_upto_create2DArray) simp_all
  with assms(2) show ?thesis by (simp add: all_solutions_def)
qed

lemma set_all_solutions:
  assumes "length cc = length rc"
  shows "set (all_solutions rc cc) = {g. is_grid (length rc) g \<and> satisfies g rc cc}"
proof (intro set_eqI iffI)
  fix h assume "h \<in> set (all_solutions rc cc)"
  from all_solutions_grid[OF this] have g: "is_grid (length rc) h" and a: "accepts rc cc h"
    by simp_all
  from g have "length h = length rc" by (simp add: is_grid_def)
  from accepts_satisfies[OF this assms] a g show "h \<in> {g. is_grid (length rc) g \<and> satisfies g rc cc}"
    by simp
next
  fix h assume "h \<in> {g. is_grid (length rc) g \<and> satisfies g rc cc}"
  then have g: "is_grid (length rc) h" and s: "satisfies h rc cc" by simp_all
  from g have "length h = length rc" by (simp add: is_grid_def)
  from accepts_satisfies[OF this assms] s have "accepts rc cc h" by simp
  from all_solutions_complete[OF g this] show "h \<in> set (all_solutions rc cc)" .
qed

lemma card_solutions:
  assumes "length cc = length rc"
  shows "card {g. is_grid (length rc) g \<and> satisfies g rc cc} = length (all_solutions rc cc)"
  using distinct_card[OF all_solutions_distinct, of rc cc] set_all_solutions[OF assms] by simp

lemma length_calculateAll:
  "length (fst (calculateAll g)) = length g" "length (snd (calculateAll g)) = length g"
  by (simp_all add: calculateAll_def calculateRows_def calculateColumns_def)

lemma satisfies_own_clues: "satisfies g (fst (calculateAll g)) (snd (calculateAll g))"
  by (simp add: satisfies_def)

lemma isValidSolution_cols_True:
  "isValidSolution_cols g cc idxs = Inr True \<Longrightarrow> \<forall>c\<in>set idxs. c < length cc"
proof (induction idxs)
  case Nil
  then show ?case by simp
next
  case (Cons col rest)
  show ?case
  proof (cases "col < length cc")
    case True
    with Cons show ?thesis by (auto simp: clue_at_def split: if_splits)
  next
    case False
    with Cons.prems show ?thesis by (simp add: clue_at_def cluesMatch.simps)
  qed
qed

lemma isValidSolution_True_cols:
  assumes "isValidSolution g rc cc = Inr True"
  shows "length g \<le> length cc"
proof -
  from assms have "isValidSolution_cols g cc [0..<length g] = Inr True"
    by (auto simp: isValidSolution_def Let_def split: sum.splits if_splits)
  from isValidSolution_cols_True[OF this] show ?thesis
    by (cases "length g") auto
qed

lemma backtrack_short_cols:
  assumes "backtrack g rc cc pos sols m = Inr (c, g', s')" and "length cc < length g"
  shows "s' = sols \<and> length g' = length g"
  using assms
proof (induction "length g * length g - pos" arbitrary: g pos sols c g' s' rule: less_induct)
  case less
  let ?row = "pos div length g" and ?col = "pos mod length g"
  have br: "ss' = ss \<and> length h' = length g"
    if "branch h rc cc ?row ?col pos ss m v = Inr (d, h', ss')" "pos < length g * length g"
      "length h = length g"
    for h ss v d h' ss'
    using that(1)
  proof (cases rule: branch_cases)
    case pruned
    with that show ?thesis by simp
  next
    case descend
    from less.hyps[OF _ descend(2)] that less.prems(2) show ?thesis by simp
  qed
  from less.prems(1) show ?case
  proof (cases rule: backtrack_cases)
    case full
    then show ?thesis by simp
  next
    case (complete ok)
    from isValidSolution_True_cols[of g rc cc] complete(3) less.prems(2) have "\<not> ok" by auto
    with complete show ?thesis by simp
  next
    case (stop1 g1)
    from br[OF stop1(3) stop1(2) refl] stop1(5) show ?thesis by simp
  next
    case (both g1 s1 g0)
    from br[OF both(3) both(2) refl] have "s1 = sols" "length g1 = length g" by simp_all
    from br[OF both(4) both(2) this(2)] this(1) both(5) show ?thesis by simp
  qed
qed

lemma calculateLine_no_filled: "1 \<notin> set line \<Longrightarrow> calculateLine line = [0]"
  by (simp add: calculateLine_def calculateLine_loop_no_filled)

lemma calculateLine_filled_pos:
  assumes "1 \<in> set line"
  shows "\<forall>c\<in>set (calculateLine line). 0 < c"
proof -
  obtain cl c where loop: "calculateLine_loop line [] 0 = (cl, c)"
    by (cases "calculateLine_loop line [] 0")
  from calculateLine_loop_inv[OF _ _ loop] have inv: "0 \<le> c" "\<forall>x\<in>set cl. 0 < x" by simp_all
  from calculateLine_loop_filled[OF assms _ loop] have "cl \<noteq> [] \<or> 0 < c" by simp
  with inv show ?thesis by (auto simp: calculateLine_def loop Let_def)
qed

lemma calculateLine_zero_clue:
  assumes "calculateLine line = [0]"
  shows "1 \<notin> set line"
  using calculateLine_filled_pos[of line] assms by auto

lemma map_constant: "(\<And>x. x \<in> set xs \<Longrightarrow> f x = k) \<Longrightarrow> map f xs = replicate (length xs) k"
  by (induction xs) simp_all

lemma calculateAll_empty_grid:
  "calculateAll (create2DArray n n 0) = (replicate n [0], replicate n [0])"
proof -
  have line: "calculateLine (replicate n 0) = [0]"
    by (rule calculateLine_no_filled) simp
  have col: "column_of (replicate n (replicate n 0)) c = replicate n 0" if "c < n" for c
    using that map_constant[of "[0..<n]" "\<lambda>r. replicate n (replicate n (0::int)) ! r ! c" 0]
    by (simp add: column_of_def)
  have "map (\<lambda>c. calculateLine (column_of (replicate n (replicate n 0)) c)) [0..<n] =
      replicate (length [0..<n]) [0]"
    by (rule map_constant) (simp add: col line)
  then show ?thesis
    by (simp add: calculateAll_def calculateRows_def calculateColumns_def create2DArray_replicate
        line)
qed

lemma singleton_list:
  assumes "distinct xs" and "set xs = {a}"
  shows "xs = [a]"
proof -
  from distinct_card[OF assms(1)] assms(2) have "length xs = 1" by simp
  then obtain b where "xs = [b]" by (cases xs) auto
  with assms(2) show ?thesis by simp
qed

lemma empty_clues_only_empty_grid:
  assumes "is_grid n h" and "satisfies h (replicate n [0]) (replicate n [0])"
  shows "h = create2DArray n n 0"
proof -
  from assms(1) have len: "length h = n"
    and all: "\<forall>row\<in>set h. length row = n \<and> (\<forall>cell\<in>set row. cell = 0 \<or> cell = 1)"
    by (simp_all add: is_grid_def list_all_iff)
  have rows: "length (h ! r) = n" and cells: "set (h ! r) \<subseteq> {0, 1}" if "r < n" for r
    using all nth_mem[of r h] that len by auto
  from assms(2) have "map (\<lambda>row. calculateLine row) h = replicate n [0]"
    by (simp add: satisfies_def calculateAll_def calculateRows_def)
  then have "map (\<lambda>row. calculateLine row) h ! r = replicate n [0] ! r" for r by simp
  then have clue: "calculateLine (h ! r) = [0]" if "r < n" for r
    using that len nth_map[of r h "\<lambda>row. calculateLine row"] by (simp del: nth_map)
  have "h ! r = replicate n 0" if "r < n" for r
  proof -
    from calculateLine_zero_clue[OF clue[OF that]] cells[OF that]
    have "\<And>x. x \<in> set (h ! r) \<Longrightarrow> x = 0" by auto
    with rows[OF that] show ?thesis by (intro replicate_eqI) simp_all
  qed
  with len show ?thesis
    unfolding create2DArray_replicate by (intro nth_equalityI) simp_all
qed

lemma generate_loop_step:
  "generate_loop (Suc a) n rnd k today =
     (if yields_unique (attempt_grid n rnd k) then
        Inr (Some \<lparr>puzzle_size = n, puzzle_solution = attempt_grid n rnd k,
                   puzzle_name = ''Random '' @ show_nat n @ [char_of (215 :: nat)] @ show_nat n,
                   puzzle_created = today\<rparr>)
      else generate_loop a n rnd (k + (n * n + 1)) today)"
proof -
  define g where "g = attempt_grid n rnd k"
  define rc where "rc = fst (calculateAll g)"
  define cc where "cc = snd (calculateAll g)"
  have le: "length rc \<le> length cc"
    by (simp add: rc_def cc_def length_calculateAll)
  have gen: "generateRandomGrid n (4 / 10 + rnd k * (3 / 10)) rnd (k + 1) = (g, k + (n * n + 1))"
    by (simp add: g_def attempt_grid_def generateRandomGrid_def)
  have all: "calculateAll g = (rc, cc)" by (simp add: rc_def cc_def)
  obtain r where r: "solve rc cc 2 = Inr r"
    using solve_char[OF le] by blast
  have y: "yields_unique g = unique r"
    by (simp add: yields_unique_def rc_def[symmetric] cc_def[symmetric] r)
  show ?thesis
    unfolding generate_loop.simps Let_def gen prod.case all r sum.case g_def[symmetric] y
    by (rule refl)
qed

declare generate_loop.simps(2) [simp del]

lemma generate_loop_some:
  assumes "generate_loop a n rnd k today = Inr (Some p)"
  shows "yields_unique (puzzle_solution p) \<and> puzzle_size p = n"
  using assms
proof (induction a arbitrary: k)
  case 0
  then show ?case by simp
next
  case (Suc a)
  show ?case
  proof (cases "yields_unique (attempt_grid n rnd k)")
    case True
    with Suc.prems show ?thesis by (auto simp: generate_loop_step)
  next
    case False
    with Suc.prems have "generate_loop a n rnd (k + (n * n + 1)) today = Inr (Some p)"
      by (simp add: generate_loop_step)
    from Suc.IH[OF this] show ?thesis .
  qed
qed

lemma generate_loop_none:
  assumes "\<forall>i<a. \<not> yields_unique (attempt_grid n rnd (k + i * (n * n + 1)))"
  shows "generate_loop a n rnd k today = Inr None"
  using assms
proof (induction a arbitrary: k)
  case 0
  then show ?case by simp
next
  case (Suc a)
  from Suc.prems have first: "\<not> yields_unique (attempt_grid n rnd k)" by force
  have "\<not> yields_unique (attempt_grid n rnd (k + (n * n + 1) + i * (n * n + 1)))" if "i < a" for i
  proof -
    from that have "Suc i < Suc a" by simp
    with Suc.prems have "\<not> yields_unique (attempt_grid n rnd (k + Suc i * (n * n + 1)))" by blast
    moreover have "k + Suc i * (n * n + 1) = k + (n * n + 1) + i * (n * n + 1)" by simp
    ultimately show ?thesis by metis
  qed
  then have "generate_loop a n rnd (k + (n * n + 1)) today = Inr None"
    by (intro Suc.IH) simp
  with first show ?case by (simp add: generate_loop_step)
qed

lemma generate_loop_returns: "\<exists>res. generate_loop a n rnd k today = Inr res"
  by (induction a arbitrary: k) (simp_all add: generate_loop_step)

lemma attempt_one_filled: "attempt_grid (Suc 0) (\<lambda>k. 0) 0 = [[1]]"
  by (simp add: attempt_grid_def generateRandomGrid_def)

lemma show_nat_one: "show_nat (Suc 0) = ''1''"
  by code_simp

lemma attempt_diagonal:
  "attempt_grid 2 (\<lambda>k. if k = 2 \<or> k = 3 then 1 else 0) 0 = [[1, 0], [0, 1]]"
  by (simp add: attempt_grid_def generateRandomGrid_def upt_rec numeral_2_eq_2)

lemma yields_unique_one: "yields_unique [[1]]"
  by code_simp

lemma not_yields_unique_diagonal: "\<not> yields_unique [[1, 0], [0, 1]]"
  by code_simp

lemma loadPuzzle_accepts_iff:
  "(\<exists>q. loadPuzzle p = Inr q) \<longleftrightarrow>
     (\<exists>sz sol. json_size p = Some sz \<and> json_solution p = Some sol \<and> (sz = 10 \<or> sz = 15) \<and>
        int (length sol) = sz \<and> int (length (sol ! 0)) = sz)"
  by (auto simp: loadPuzzle_def split: option.splits)

section \<open>The claims\<close>

text \<open>
  C1: on a clue set (as many column clues as row clues) \<open>solve\<close> returns a result; it never
  holds more than \<open>maxSolutions\<close> solutions; \<open>unique\<close> says that exactly one solution was found
  and \<open>solvable\<close> that at least one was; and with \<open>maxSolutions \<ge> 2\<close>, \<open>unique\<close> is true exactly
  when the number of \<open>N\<close>-by-\<open>N\<close> grids of \<open>0\<close> and \<open>1\<close> that satisfy the clue set is one.
\<close>

theorem solve_bound_and_uniqueness:
  assumes "length cc = length rc" and "1 \<le> m"
  shows "\<exists>r. solve rc cc m = Inr r \<and> length (solutions r) \<le> m \<and>
           (unique r \<longleftrightarrow> length (solutions r) = 1) \<and>
           (solvable r \<longleftrightarrow> 0 < length (solutions r)) \<and>
           (2 \<le> m \<longrightarrow>
              (unique r \<longleftrightarrow> card {g. is_grid (length rc) g \<and> satisfies g rc cc} = 1))"
proof -
  from assms(1) have le: "length rc \<le> length cc" by simp
  have "length (take m (all_solutions rc cc)) = 1 \<longleftrightarrow> length (all_solutions rc cc) = 1"
    if "2 \<le> m"
    using that by (auto simp: min_def)
  then show ?thesis
    by (auto simp: solve_char[OF le] card_solutions[OF assms(1)])
qed

theorem solve_bound_and_uniqueness_witness:
  "length [[1], [1 :: int]] = length [[1], [1 :: int]] \<and> (1 :: nat) \<le> 2 \<and>
   solve [[1], [1]] [[1], [1]] 2 =
     Inr \<lparr>solutions = [[[1, 0], [0, 1]], [[0, 1], [1, 0]]], unique = False, solvable = True\<rparr> \<and>
   card {g. is_grid 2 g \<and> satisfies g [[1], [1]] [[1], [1]]} \<noteq> 1"
proof -
  have run: "solve [[1], [1]] [[1], [1]] 2 =
     Inr \<lparr>solutions = [[[1, 0], [0, 1]], [[0, 1], [1, 0]]], unique = False, solvable = True\<rparr>"
    by code_simp
  from solve_bound_and_uniqueness[of "[[1], [1]]" "[[1], [1]]" 2]
  have "card {g. is_grid 2 g \<and> satisfies g [[1], [1]] [[1], [1]]} \<noteq> 1"
    unfolding run by (simp add: numeral_2_eq_2)
  with run show ?thesis by simp
qed

text \<open>
  C2, as amended: for every \<open>N\<close>-by-\<open>N\<close> grid \<open>g\<close> of \<open>0\<close> and \<open>1\<close> and every bound, \<open>solve\<close> on the
  clues of \<open>g\<close> returns a result whose solutions include \<open>g\<close> or are as many as the bound. The
  grid is never pruned away: it is included whenever the bound is at least the number of grids
  that satisfy the clues.
\<close>

theorem solve_includes_original_unless_cut:
  assumes "is_grid n g"
  shows "\<exists>r. solve (fst (calculateAll g)) (snd (calculateAll g)) m = Inr r \<and>
           (g \<in> set (solutions r) \<or> length (solutions r) = m) \<and>
           (card {h. is_grid n h \<and> satisfies h (fst (calculateAll g)) (snd (calculateAll g))} \<le> m
              \<longrightarrow> g \<in> set (solutions r))"
proof -
  let ?rc = "fst (calculateAll g)" and ?cc = "snd (calculateAll g)"
  from assms have n: "length g = n" by (simp add: is_grid_def)
  have len: "length ?cc = length ?rc" "length ?rc = n"
    by (simp_all add: length_calculateAll n)
  from len have le: "length ?rc \<le> length ?cc" by simp
  have "g \<in> {h. is_grid (length ?rc) h \<and> satisfies h ?rc ?cc}"
    using assms len satisfies_own_clues by simp
  then have mem: "g \<in> set (all_solutions ?rc ?cc)"
    by (simp only: set_all_solutions[OF len(1)])
  have card: "card {h. is_grid n h \<and> satisfies h ?rc ?cc} = length (all_solutions ?rc ?cc)"
    using card_solutions[OF len(1)] len(2) by simp
  have "g \<in> set (take m (all_solutions ?rc ?cc)) \<or> length (take m (all_solutions ?rc ?cc)) = m"
    using mem by (cases "length (all_solutions ?rc ?cc) \<le> m") simp_all
  moreover have "g \<in> set (take m (all_solutions ?rc ?cc))"
    if "length (all_solutions ?rc ?cc) \<le> m"
    using mem that by simp
  ultimately show ?thesis
    unfolding solve_char[OF le] card by simp
qed

theorem solve_includes_original_unless_cut_witness:
  "is_grid 2 [[0, 1], [1, 0]] \<and>
   (\<exists>r. solve (fst (calculateAll [[0, 1], [1, 0]])) (snd (calculateAll [[0, 1], [1, 0]])) 1 = Inr r \<and>
        length (solutions r) = 1) \<and>
   (\<exists>r. solve (fst (calculateAll [[0, 1], [1, 0]])) (snd (calculateAll [[0, 1], [1, 0]])) 2 = Inr r \<and>
        [[0, 1], [1, 0]] \<in> set (solutions r))"
proof -
  have g: "is_grid 2 [[0, 1], [1, 0]]" by code_simp
  have one: "solve (fst (calculateAll [[0, 1], [1, 0]])) (snd (calculateAll [[0, 1], [1, 0]])) 1 =
     Inr \<lparr>solutions = [[[1, 0], [0, 1]]], unique = True, solvable = True\<rparr>"
    by code_simp
  have two: "solve (fst (calculateAll [[0, 1], [1, 0]])) (snd (calculateAll [[0, 1], [1, 0]])) 2 =
     Inr \<lparr>solutions = [[[1, 0], [0, 1]], [[0, 1], [1, 0]]], unique = False, solvable = True\<rparr>"
    by code_simp
  from solve_includes_original_unless_cut[OF g, of 1]
  have a: "\<exists>r. solve (fst (calculateAll [[0, 1], [1, 0]])) (snd (calculateAll [[0, 1], [1, 0]])) 1 = Inr r \<and>
        length (solutions r) = 1"
    unfolding one by simp
  from solve_includes_original_unless_cut[OF g, of 2]
  have b: "\<exists>r. solve (fst (calculateAll [[0, 1], [1, 0]])) (snd (calculateAll [[0, 1], [1, 0]])) 2 = Inr r \<and>
        [[0, 1], [1, 0]] \<in> set (solutions r)"
    unfolding two by simp
  from g a b show ?thesis by blast
qed

text \<open>
  C2 as stated fails at bound 1: the grid \<open>[[0,1],[1,0]]\<close> has the clues \<open>[1],[1]\<close> for rows and
  columns, the search finds \<open>[[1,0],[0,1]]\<close> first and stops.
\<close>

theorem solve_bound_one_omits_original:
  "is_grid 2 [[0, 1], [1, 0]] \<and>
   calculateAll [[0, 1], [1, 0]] = ([[1], [1]], [[1], [1]]) \<and>
   solve [[1], [1]] [[1], [1]] 1 =
     Inr \<lparr>solutions = [[[1, 0], [0, 1]]], unique = True, solvable = True\<rparr> \<and>
   [[0, 1], [1, 0]] \<notin> set [[[1, 0], [0, 1 :: int]]]"
  by code_simp

text \<open>
  C3: whenever \<open>generate\<close> returns a puzzle, \<open>solve\<close> with bound 2 on the clues of its solution
  reports \<open>unique\<close>; when none of the \<open>maxAttempts\<close> sampled grids has a unique clue set it
  returns none; and it never fails with an error. This holds for every sequence of random
  numbers.
\<close>

theorem generate_postcondition:
  "(generate n maxAttempts rnd today = Inr (Some p) \<longrightarrow>
      (\<exists>r. solve (fst (calculateAll (puzzle_solution p))) (snd (calculateAll (puzzle_solution p))) 2
             = Inr r \<and> unique r)) \<and>
   ((\<forall>i<maxAttempts. \<not> yields_unique (attempt_grid n rnd (i * (n * n + 1)))) \<longrightarrow>
      generate n maxAttempts rnd today = Inr None) \<and>
   (\<exists>res. generate n maxAttempts rnd today = Inr res)"
proof -
  have a: "\<exists>r. solve (fst (calculateAll (puzzle_solution p))) (snd (calculateAll (puzzle_solution p))) 2
             = Inr r \<and> unique r"
    if "generate n maxAttempts rnd today = Inr (Some p)"
  proof -
    from that generate_loop_some[of maxAttempts n rnd 0 today p]
    have "yields_unique (puzzle_solution p)" by (simp add: generate_def)
    then show ?thesis by (auto simp: yields_unique_def split: sum.splits)
  qed
  have b: "generate n maxAttempts rnd today = Inr None"
    if "\<forall>i<maxAttempts. \<not> yields_unique (attempt_grid n rnd (i * (n * n + 1)))"
    using generate_loop_none[of maxAttempts n rnd 0 today] that by (simp add: generate_def)
  from a b generate_loop_returns[of maxAttempts n rnd 0 today] show ?thesis
    by (simp add: generate_def)
qed

theorem generate_postcondition_witness:
  "generate 1 1 (\<lambda>k. 0) ''2024-01-01'' =
     Inr (Some \<lparr>puzzle_size = 1, puzzle_solution = [[1]],
                puzzle_name = ''Random 1'' @ [char_of (215 :: nat)] @ ''1'',
                puzzle_created = ''2024-01-01''\<rparr>) \<and>
   (\<exists>r. solve (fst (calculateAll [[1]])) (snd (calculateAll [[1]])) 2 = Inr r \<and> unique r) \<and>
   generate 2 1 (\<lambda>k. if k = 2 \<or> k = 3 then 1 else 0) ''2024-01-01'' = Inr None"
proof -
  have run: "generate 1 1 (\<lambda>k. 0) ''2024-01-01'' =
     Inr (Some \<lparr>puzzle_size = 1, puzzle_solution = [[1]],
                puzzle_name = ''Random 1'' @ [char_of (215 :: nat)] @ ''1'',
                puzzle_created = ''2024-01-01''\<rparr>)"
    by (simp add: generate_def generate_loop_step attempt_one_filled yields_unique_one
        show_nat_one del: show_nat.simps)
  from generate_postcondition[of 1 1 "\<lambda>k. 0" "''2024-01-01''"
      "\<lparr>puzzle_size = 1, puzzle_solution = [[1]],
        puzzle_name = ''Random 1'' @ [char_of (215 :: nat)] @ ''1'',
        puzzle_created = ''2024-01-01''\<rparr>"] run
  have a: "\<exists>r. solve (fst (calculateAll [[1]])) (snd (calculateAll [[1]])) 2 = Inr r \<and> unique r"
    by simp
  have "\<forall>i<1. \<not> yields_unique
      (attempt_grid 2 (\<lambda>k. if k = 2 \<or> k = 3 then 1 else 0) (i * (2 * 2 + 1)))"
    by (simp add: attempt_diagonal not_yields_unique_diagonal)
  with generate_postcondition[of 2 1 "\<lambda>k. if k = 2 \<or> k = 3 then 1 else 0" "''2024-01-01''"]
  have b: "generate 2 1 (\<lambda>k. if k = 2 \<or> k = 3 then 1 else 0) ''2024-01-01'' = Inr None"
    by blast
  from run a b show ?thesis by blast
qed

text \<open>
  C4: for every \<open>N\<close> (so for \<open>N \<ge> 1\<close>) all row and column clues of the all-zeros \<open>N\<close>-by-\<open>N\<close>
  grid are \<open>[0]\<close>, and \<open>solve\<close> on that clue set with bound 2 returns exactly one solution, the
  all-zeros grid, with \<open>unique\<close> true.
\<close>

theorem solve_empty_grid_unique:
  "calculateAll (create2DArray n n 0) = (replicate n [0], replicate n [0]) \<and>
   solve (replicate n [0]) (replicate n [0]) 2 =
     Inr \<lparr>solutions = [create2DArray n n 0], unique = True, solvable = True\<rparr>"
proof -
  let ?rc = "replicate n [0::int]"
  have len: "length ?rc = length ?rc" "length ?rc \<le> length ?rc" by simp_all
  have grid: "is_grid n (create2DArray n n 0)"
    by (simp add: is_grid_def create2DArray_replicate list_all_iff)
  have "satisfies (create2DArray n n 0) ?rc ?rc"
    by (simp add: satisfies_def calculateAll_empty_grid)
  with grid have "{g. is_grid (length ?rc) g \<and> satisfies g ?rc ?rc} = {create2DArray n n 0}"
  proof (intro set_eqI iffI)
    fix g assume "g \<in> {g. is_grid (length ?rc) g \<and> satisfies g ?rc ?rc}"
    then have "is_grid n g" "satisfies g ?rc ?rc" by simp_all
    from empty_clues_only_empty_grid[OF this] show "g \<in> {create2DArray n n 0}" by simp
  next
    fix g assume "g \<in> {create2DArray n n 0}"
    then have "g = create2DArray n n 0" by simp
    with grid \<open>satisfies (create2DArray n n 0) ?rc ?rc\<close>
    show "g \<in> {g. is_grid (length ?rc) g \<and> satisfies g ?rc ?rc}" by simp
  qed
  then have "set (all_solutions ?rc ?rc) = {create2DArray n n 0}"
    by (simp only: set_all_solutions[OF len(1)])
  from singleton_list[OF all_solutions_distinct this]
  have "all_solutions ?rc ?rc = [create2DArray n n 0]" .
  then show ?thesis
    by (simp add: solve_char[OF len(2)] calculateAll_empty_grid)
qed

text \<open>
  C5: the clue of a line is never empty; it is \<open>[0]\<close> when the line has no filled cell, and
  otherwise its entries are positive and, with one separating cell between runs, fit in the line.
  The statement holds for every line, whatever the values of its cells that are not \<open>1\<close>.
\<close>

theorem calculateLine_shape:
  "calculateLine line \<noteq> [] \<and>
   (1 \<notin> set line \<longrightarrow> calculateLine line = [0]) \<and>
   (1 \<in> set line \<longrightarrow>
      (\<forall>c\<in>set (calculateLine line). 0 < c) \<and>
      sum_list (calculateLine line) + (int (length (calculateLine line)) - 1) \<le> int (length line))"
proof -
  obtain cl c where loop: "calculateLine_loop line [] 0 = (cl, c)"
    by (cases "calculateLine_loop line [] 0")
  from calculateLine_loop_inv[OF _ _ loop]
  have inv: "0 \<le> c" "\<forall>x\<in>set cl. 0 < x" "sum_list cl + int (length cl) + c \<le> int (length line)"
    by simp_all
  have nonempty: "calculateLine line \<noteq> []"
    by (simp add: calculateLine_def loop Let_def)
  have empty: "calculateLine line = [0]" if "1 \<notin> set line"
    using calculateLine_loop_no_filled[OF that] by (simp add: calculateLine_def)
  have filled: "(\<forall>c\<in>set (calculateLine line). 0 < c) \<and>
      sum_list (calculateLine line) + (int (length (calculateLine line)) - 1) \<le> int (length line)"
    if "1 \<in> set line"
  proof -
    from calculateLine_loop_filled[OF that _ loop] have ne: "cl \<noteq> [] \<or> 0 < c" by simp
    show ?thesis
    proof (cases "0 < c")
      case True
      with inv show ?thesis by (simp add: calculateLine_def loop Let_def)
    next
      case False
      with ne have "cl \<noteq> []" by simp
      with False inv show ?thesis by (simp add: calculateLine_def loop Let_def)
    qed
  qed
  from nonempty empty filled show ?thesis by blast
qed

theorem calculateLine_shape_witness:
  "calculateLine [0, 0, 0] = [0] \<and>
   sum_list (calculateLine [1, 1, 0, 1]) + (int (length (calculateLine [1, 1, 0, 1])) - 1) \<le> 4"
proof -
  have "1 \<notin> set [0, 0, 0 :: int]" by simp
  with calculateLine_shape[of "[0, 0, 0]"] have a: "calculateLine [0, 0, 0] = [0]" by blast
  have "1 \<in> set [1, 1, 0, 1 :: int]" by simp
  with calculateLine_shape[of "[1, 1, 0, 1]"]
  have "sum_list (calculateLine [1, 1, 0, 1]) + (int (length (calculateLine [1, 1, 0, 1])) - 1)
          \<le> int (length [1, 1, 0, 1 :: int])" by blast
  with a show ?thesis by simp
qed

text \<open>
  C6, as amended: \<open>backtrack\<close> resets the cells it visits to Unknown, not to the value they
  held. So when it is entered on a square grid whose cells from \<open>pos\<close> on are Unknown (every call
  that \<open>solve\<close> makes is of this kind) and returns, with either result, the grid is the grid at
  entry; in particular the working grid of \<open>solve\<close> is all-Unknown again when the top-level call
  returns, and that call does return when there are at least as many row clues and column clues
  as rows.
\<close>

theorem backtrack_restores_unknown_grid:
  "(square g \<and> unknown_from g pos \<and> backtrack g rc cc pos sols m = Inr (c, g', s') \<longrightarrow> g' = g) \<and>
   (backtrack (create2DArray n n (- 1)) rc cc 0 [] m = Inr (c0, g0, s0) \<longrightarrow>
      g0 = create2DArray n n (- 1)) \<and>
   (n \<le> length rc \<and> n \<le> length cc \<longrightarrow>
      (\<exists>c1 s1. backtrack (create2DArray n n (- 1)) rc cc 0 [] m =
                 Inr (c1, create2DArray n n (- 1), s1)))"
proof -
  have returns: "\<exists>c1 s1. backtrack (create2DArray n n (- 1)) rc cc 0 [] m =
                 Inr (c1, create2DArray n n (- 1), s1)"
    if "n \<le> length rc" "n \<le> length cc"
  proof -
    have "backtrack (create2DArray n n (- 1)) rc cc 0 [] m =
       Inr (length ([] @ take (m - length ([] :: grid list))
                (filter (accepts rc cc) (extensions (n * n) (create2DArray n n (- 1)) 0))) < m,
            create2DArray n n (- 1),
            [] @ take (m - length ([] :: grid list))
                (filter (accepts rc cc) (extensions (n * n) (create2DArray n n (- 1)) 0)))"
      by (rule backtrack_char[OF square_create2DArray assigned_upto_create2DArray])
         (use that in simp_all)
    then show ?thesis by blast
  qed
  from returns backtrack_frame[of g pos rc cc sols m c g' s']
    backtrack_frame[OF unknown_from_create, of n rc cc "[]" m c0 g0 s0]
  show ?thesis by blast
qed

theorem backtrack_restores_unknown_grid_witness:
  "square [[- 1]] \<and> unknown_from [[- 1]] 0 \<and>
   (\<exists>c s'. backtrack [[- 1]] [[1]] [[1]] 0 [] 2 = Inr (c, [[- 1]], s'))"
proof -
  have sq: "square [[- 1]]" by (simp add: square_def)
  have un: "unknown_from [[- 1]] 0" by (simp add: unknown_from_def cell_at_def)
  have "backtrack [[- 1]] [[1]] [[1]] 0 [] 2 = Inr (True, [[- 1]], [[[1]]])"
    by code_simp
  then obtain c g' s' where run: "backtrack [[- 1]] [[1]] [[1]] 0 [] 2 = Inr (c, g', s')"
    by blast
  with sq un backtrack_restores_unknown_grid[of "[[- 1]]" 0 "[[1]]" "[[1]]" "[]" 2 c g' s']
  have "g' = [[- 1]]" by blast
  with sq un run show ?thesis by blast
qed

text \<open>
  C6 as stated fails for a grid that holds an assigned cell at \<open>pos\<close>: entered on the 1-by-1
  grid \<open>[[0]]\<close>, the call returns with the grid \<open>[[-1]]\<close>.
\<close>

theorem backtrack_overwrites_assigned_cell:
  "backtrack [[0]] [[0]] [[0]] 0 [] 1 = Inr (False, [[- 1]], [[[0]]]) \<and> [[- 1]] \<noteq> [[0 :: int]]"
  by code_simp

text \<open>
  C7: \<open>loadPuzzle\<close> compares only the number of rows and the length of the first row with
  \<open>size\<close>. A record of size 10 whose solution has ten rows, the first of length 10 and the others
  empty, is not a 10-by-10 matrix and is accepted.
\<close>

theorem loadPuzzle_accepts_ragged_solution:
  "loadPuzzle \<lparr>json_size = Some 10, json_solution = Some (replicate 10 0 # replicate 9 [])\<rparr> =
     Inr \<lparr>json_size = Some 10, json_solution = Some (replicate 10 0 # replicate 9 [])\<rparr> \<and>
   \<not> square (replicate 10 0 # replicate 9 [])"
  by code_simp

theorem loadPuzzle_accepts_ragged_solution_witness:
  "(\<exists>q. loadPuzzle \<lparr>json_size = Some 10, json_solution = Some (replicate 10 0 # replicate 9 [])\<rparr>
         = Inr q) \<and>
   \<not> square (replicate 10 0 # replicate 9 [])"
  using loadPuzzle_accepts_ragged_solution by blast

text \<open>C8: the three literal cases of the specification.\<close>

theorem calculateLine_literal_cases:
  "calculateLine [1,1,0,1,0,0,1,1,1,0] = [2,1,3] \<and>
   calculateLine [0,0,0,0] = [0] \<and>
   calculateLine [1,1,1,1] = [4]"
  by (simp add: calculateLine_def)

text \<open>
  C9: with \<open>maxSolutions = 1\<close>, \<open>solve\<close> returns a result on every clue set (with at least as
  many column clues as row clues), the \<open>unique\<close> flag of a result is its \<open>solvable\<close> flag, and
  there is a clue set with two distinct satisfying grids for which \<open>unique\<close> is reported true.
\<close>

theorem solve_bound_one_unique_iff_solvable:
  "(length rc \<le> length cc \<longrightarrow> (\<exists>r0. solve rc cc 1 = Inr r0)) \<and>
   (solve rc cc 1 = Inr r \<longrightarrow> (unique r \<longleftrightarrow> solvable r)) \<and>
   (\<exists>rc' cc' r' g1 g2. solve rc' cc' 1 = Inr r' \<and> unique r' \<and> g1 \<noteq> g2 \<and>
      is_grid (length rc') g1 \<and> satisfies g1 rc' cc' \<and>
      is_grid (length rc') g2 \<and> satisfies g2 rc' cc')"
proof -
  have a: "unique r \<longleftrightarrow> solvable r" if "solve rc cc 1 = Inr r"
    using solve_length_bound[OF that] solve_flags[OF that] by (auto simp: le_Suc_eq)
  have "solve [[1],[1]] [[1],[1]] 1 = Inr \<lparr>solutions = [[[1,0],[0,1]]], unique = True, solvable = True\<rparr>
     \<and> unique \<lparr>solutions = [[[1,0],[0,1]]], unique = True, solvable = True\<rparr>
     \<and> [[1,0],[0,1]] \<noteq> [[0,1],[1,0::int]]
     \<and> is_grid (length [[1],[1::int]]) [[1,0],[0,1]] \<and> satisfies [[1,0],[0,1]] [[1],[1]] [[1],[1]]
     \<and> is_grid (length [[1],[1::int]]) [[0,1],[1,0]] \<and> satisfies [[0,1],[1,0]] [[1],[1]] [[1],[1]]"
    by code_simp
  then have b: "\<exists>rc' cc' r' g1 g2. solve rc' cc' 1 = Inr r' \<and> unique r' \<and> g1 \<noteq> g2 \<and>
      is_grid (length rc') g1 \<and> satisfies g1 rc' cc' \<and>
      is_grid (length rc') g2 \<and> satisfies g2 rc' cc'"
    by blast
  have c: "\<exists>r0. solve rc cc 1 = Inr r0" if "length rc \<le> length cc"
    using solve_char[OF that] by blast
  from a b c show ?thesis by blast
qed

theorem solve_bound_one_unique_iff_solvable_witness:
  "solve [[1],[1]] [[1],[1]] 1 = Inr \<lparr>solutions = [[[1,0],[0,1]]], unique = True, solvable = True\<rparr> \<and>
   (unique \<lparr>solutions = [[[1,0],[0,1]]], unique = True, solvable = True\<rparr>
     \<longleftrightarrow> solvable \<lparr>solutions = [[[1,0],[0,1]]], unique = True, solvable = True\<rparr>)"
proof -
  have run: "solve [[1],[1]] [[1],[1]] 1 = Inr \<lparr>solutions = [[[1,0],[0,1]]], unique = True, solvable = True\<rparr>"
    by code_simp
  with solve_bound_one_unique_iff_solvable[of "[[1],[1]]" "[[1],[1]]"
      "\<lparr>solutions = [[[1,0],[0,1]]], unique = True, solvable = True\<rparr>"]
  show ?thesis by blast
qed

text \<open>
  C10: whatever the clue arrays and the bound, when \<open>solve\<close> returns, the solutions are pairwise
  distinct and each is a grid of the size of the row clues whose cells are \<open>0\<close> or \<open>1\<close>, so no
  cell of a returned grid is \<open>-1\<close>; and \<open>solve\<close> does return when there are at least as many
  column clues as row clues.
\<close>

theorem solve_solutions_distinct_binary:
  "(length rc \<le> length cc \<longrightarrow> (\<exists>r0. solve rc cc m = Inr r0)) \<and>
   (solve rc cc m = Inr r \<longrightarrow>
      distinct (solutions r) \<and>
      list_all (is_grid (length rc)) (solutions r) \<and>
      list_all (list_all (list_all (\<lambda>cell. (cell = 0 \<or> cell = 1) \<and> cell \<noteq> - 1))) (solutions r))"
proof -
  have returns: "\<exists>r0. solve rc cc m = Inr r0" if "length rc \<le> length cc"
    using solve_char[OF that] by blast
  have "distinct (solutions r) \<and>
      list_all (is_grid (length rc)) (solutions r) \<and>
      list_all (list_all (list_all (\<lambda>cell. (cell = 0 \<or> cell = 1) \<and> cell \<noteq> - 1))) (solutions r)"
    if assms: "solve rc cc m = Inr r"
  proof (cases "length rc \<le> length cc")
  case True
  from assms have r: "solutions r = take m (all_solutions rc cc)"
    unfolding solve_char[OF True] by auto
  have "is_grid (length rc) g" if "g \<in> set (solutions r)" for g
    using all_solutions_grid[of g rc cc] that in_set_takeD[of g m "all_solutions rc cc"]
    by (auto simp: r)
  then have grids: "list_all (is_grid (length rc)) (solutions r)" by (simp add: list_all_iff)
  then have "list_all (list_all (list_all (\<lambda>cell. (cell = 0 \<or> cell = 1) \<and> cell \<noteq> - 1))) (solutions r)"
    by (fastforce simp: list_all_iff is_grid_def)
  with grids all_solutions_distinct[of rc cc] show ?thesis by (simp add: r)
next
  case False
  from assms obtain c g' s' where
    run: "backtrack (create2DArray (length rc) (length rc) (- 1)) rc cc 0 [] m = Inr (c, g', s')"
    and r: "solutions r = s'"
    by (auto simp: solve_def Let_def split: sum.splits)
  from backtrack_short_cols[OF run] False have "s' = []" by simp
  with r show ?thesis by simp
  qed
  with returns show ?thesis by blast
qed

theorem solve_solutions_distinct_binary_witness:
  "solve [[1], [1]] [[1], [1]] 2 =
     Inr \<lparr>solutions = [[[1, 0], [0, 1]], [[0, 1], [1, 0]]], unique = False, solvable = True\<rparr> \<and>
   distinct [[[1, 0], [0, 1]], [[0, 1], [1, 0 :: int]]] \<and>
   list_all (is_grid 2) [[[1, 0], [0, 1]], [[0, 1], [1, 0]]]"
proof -
  have run: "solve [[1], [1]] [[1], [1]] 2 =
     Inr \<lparr>solutions = [[[1, 0], [0, 1]], [[0, 1], [1, 0]]], unique = False, solvable = True\<rparr>"
    by code_simp
  from solve_solutions_distinct_binary[of "[[1], [1]]" "[[1], [1]]" 2
      "\<lparr>solutions = [[[1, 0], [0, 1]], [[0, 1], [1, 0]]], unique = False, solvable = True\<rparr>"] run
  show ?thesis
    by (simp add: numeral_2_eq_2)
qed

end
